theory Spec2Isabelle
  imports Main "HOL-Library.AList"
begin

section \<open>The jsdelivr asset store (plugins/jsdelivr/src/index.ts)\<close>

subsection \<open>Rendering numbers as strings\<close>

text \<open>
  Branch ids are JavaScript numbers holding integers.  They are modelled as \<open>int\<close>; the
  renderings below are those of \<open>Number.prototype.toString\<close> on the safe integers, of
  magnitude below \<open>2 ^ 53\<close>, which are written with their exact digits.  Beyond that a
  number no longer holds every integer, and the digits it is written with in a radix other
  than 10 are left to the implementation: the rendering is not specified here, and no
  property below is about such an id.
\<close>

definition digitChar :: "nat \<Rightarrow> char" where
  "digitChar d = ''0123456789abcdefghijklmnopqrstuvwxyz'' ! d"

fun natToString :: "nat \<Rightarrow> nat \<Rightarrow> string" where
  \<comment> \<open>the digits of \<open>n\<close>; the radix is 36 or 10 in every call (JavaScript allows 2 to 36)\<close>
  "natToString radix n =
     (if radix < 2 \<or> n < radix then [digitChar n]
      else natToString radix (n div radix) @ [digitChar (n mod radix)])"

declare natToString.simps [simp del]

definition numToString :: "nat \<Rightarrow> int \<Rightarrow> string" where
  \<comment> \<open>\<open>n.toString(radix)\<close> for a safe integer \<open>n\<close>: a minus sign, then the digits of \<open>|n|\<close>\<close>
  "numToString radix n =
     (if \<bar>n\<bar> < 2 ^ 53
      then (if n < 0 then CHR ''-'' # natToString radix (nat (- n)) else natToString radix (nat n))
      else undefined)"

definition padStart :: "nat \<Rightarrow> string \<Rightarrow> string" where
  \<comment> \<open>\<open>s.padStart(w)\<close>: the pad string defaults to a single space; a longer \<open>s\<close> is kept\<close>
  "padStart w s = replicate (w - length s) CHR '' '' @ s"

definition toBranchName :: "int \<Rightarrow> string" where
  "toBranchName id' = padStart 8 (numToString 36 id')"

subsection \<open>Configuration and records\<close>

record GitHubConfig =
  user :: string
  repo :: string
  token :: string

record Config =
  github :: GitHubConfig
  baseDir :: string  \<comment> \<open>\<open>git.baseDir\<close>\<close>
  tempDir :: string
  flushInterval :: int
  maxBranchSize :: int

text \<open>
  \<open>FileBase\<close>, \<open>File\<close> and \<open>Task\<close> are declared in \<open>./file\<close>.  The fields named
  \<open>size\<close> are written \<open>size'\<close>, and those of the interface \<open>Branch\<close> carry a prefix.
\<close>

record FileBase =
  hash :: string
  name :: string
  size' :: int

record File = FileBase +
  branch :: int

record Branch =
  bbranch :: int  \<comment> \<open>\<open>branch\<close>\<close>
  bsize :: int  \<comment> \<open>\<open>size\<close>\<close>

datatype error = Error string string  \<comment> \<open>a thrown \<open>Error\<close>: its name and its message\<close>

fun error_toString :: "error \<Rightarrow> string" where
  "error_toString (Error n m) = (if m = [] then n else n @ '': '' @ m)"

type_synonym promise = nat

datatype settled = Pending | Resolved string | Rejected error

text \<open>
  Modelled from the spec: the class \<open>Task\<close> (file \<open>./file\<close>, not among the sources).  A Task
  is \<open>{hash, name, size, tempPath, savePath, filename, branch (assigned at processing time),
  waiters}\<close>; index.ts reads and writes the waiters as the two lists \<open>resolvers\<close> and
  \<open>rejectors\<close>.  A waiter is the promise whose \<open>resolve\<close> and \<open>reject\<close> functions were
  pushed.
\<close>

record Task = FileBase +
  branch_opt :: "int option"  \<comment> \<open>\<open>branch\<close>, undefined until the task is processed\<close>
  resolvers :: "promise list"
  rejectors :: "promise list"

type_synonym ref = nat  \<comment> \<open>the identity of a Task object: its index in the heap\<close>

type_synonym buffer = string

datatype io_op =
    DbGet
  | DbAggregate
  | DbUpsert "File list"
  | GitCheckoutOrphan string
  | GitRmAll
  | GitFetch string
  | GitCheckoutForce string
  | GitResetHard string
  | GitAdd "string list"
  | GitCommit string
  | GitPush string
  | FsRename string string
  | FsWriteFile string buffer
  | HttpGet string
  | FromBuffer
  | Sleep int
  | LogWarn string

text \<open>
  The state of a \<open>JsdelivrAssets\<close> object and of its collaborators.  Task objects are shared
  between \<open>taskQueue\<close> and \<open>taskMap\<close>, so both hold references into \<open>heap\<close>.  \<open>taskMap\<close>
  is a JavaScript \<open>Map\<close>: an association list in insertion order.  \<open>db\<close> is the table
  \<open>jsdelivr\<close> in the store's own order, \<open>trace\<close> the operations on the collaborators that
  were carried out.  A reference is created by \<open>createTask\<close> only, as the index of the Task
  it appends to the heap, and a promise likewise as its index in \<open>promises\<close>.
\<close>

record state =
  taskQueue :: "ref list"
  taskMap :: "(string \<times> ref) list"
  heap :: "Task list"
  promises :: "settled list"
  db :: "File list"
  isActive :: bool
  trace :: "io_op list"

text \<open>
  What the collaborators answer: whether an operation throws, and the values of the library
  functions (\<open>Buffer.from(_, 'base64')\<close>, the SHA-1 digest in hex, the body of an HTTP
  response, the extension \<open>file-type\<close> finds).
\<close>

record env =
  fails :: "io_op \<Rightarrow> error option"
  base64_decode :: "string \<Rightarrow> buffer"
  sha1_hex :: "buffer \<Rightarrow> string"
  http_body :: "string \<Rightarrow> buffer"
  file_ext :: "buffer \<Rightarrow> string option"
  disconnect :: bool  \<comment> \<open>the event \<open>disconnect\<close> fires while this iteration awaits\<close>

subsection \<open>Asynchronous code as state passing with errors\<close>

type_synonym 'a io = "state \<Rightarrow> (error + 'a) \<times> state"

definition succeed :: "'a \<Rightarrow> 'a io" where
  "succeed a s = (Inr a, s)"

definition throw :: "error \<Rightarrow> 'a io" where
  "throw e s = (Inl e, s)"

definition then_io :: "'a io \<Rightarrow> ('a \<Rightarrow> 'b io) \<Rightarrow> 'b io" where
  "then_io m f s = (case m s of (Inl e, s') \<Rightarrow> (Inl e, s') | (Inr a, s') \<Rightarrow> f a s')"

definition emit :: "io_op \<Rightarrow> state \<Rightarrow> state" where
  "emit op s = s\<lparr>trace := trace s @ [op]\<rparr>"

definition perform :: "env \<Rightarrow> io_op \<Rightarrow> unit io" where
  "perform ev op s = (case fails ev op of Some e \<Rightarrow> (Inl e, s) | None \<Rightarrow> (Inr (), emit op s))"

subsection \<open>The metadata store\<close>

text \<open>
  \<open>get\<close> of \<open>MongoDatabase\<close> (src/unnamed/part_000), the only \<open>get\<close> among the sources, and
  \<open>Query.resolveModifier\<close> (packages/core/src/database.ts).  The table is the list of its
  records in the order they were written, the order in which a cursor without \<open>sort\<close>
  returns them.  For the two queries of index.ts, \<open>{}\<close> and \<open>{hash}\<close>, \<open>createFilter\<close>
  returns a filter, here a predicate on the records.  The records are returned whole: the
  callers read the projected fields only.  A modifier that is \<open>undefined\<close> resolves to \<open>{}\<close>,
  whose \<open>fields\<close> is \<open>undefined\<close>: the projection is guarded by \<open>if (fields)\<close>, but
  \<open>fields.includes(primary)\<close> after the read is not, and throws a \<open>TypeError\<close>.
\<close>

record Options =
  opt_limit :: "nat option"  \<comment> \<open>\<open>limit\<close>\<close>
  opt_offset :: "nat option"  \<comment> \<open>\<open>offset\<close>\<close>
  opt_fields :: "string list option"  \<comment> \<open>\<open>fields\<close>\<close>

datatype Modifier = Fields "string list" | Opts Options

definition resolveModifier :: "Modifier option \<Rightarrow> Options" where
  "resolveModifier modifier =
     (case modifier of
        Some (Fields fs) \<Rightarrow> \<lparr>opt_limit = None, opt_offset = None, opt_fields = Some fs\<rparr>
      | Some (Opts opts) \<Rightarrow> opts
      | None \<Rightarrow> \<lparr>opt_limit = None, opt_offset = None, opt_fields = None\<rparr>)"

definition database_get :: "env \<Rightarrow> (File \<Rightarrow> bool) \<Rightarrow> Modifier option \<Rightarrow> File list io" where
  "database_get ev query modifier =
     (let opts = resolveModifier modifier;
          skip = (case opt_offset opts of None \<Rightarrow> 0 | Some n \<Rightarrow> n)
      in then_io (perform ev DbGet) (\<lambda>_ s.
           let found = drop skip (filter query (db s));
               data = (case opt_limit opts of
                         None \<Rightarrow> found
                       | Some n \<Rightarrow> if n = 0 then found else take (skip + n) found)
           in case opt_fields opts of
                None \<Rightarrow> (Inl (Error ''TypeError'' ''Cannot read properties of undefined''), s)
              | Some _ \<Rightarrow> (Inr data, s)))"

text \<open>
  Modelled from the spec: \<open>aggregate\<close> and \<open>upsert\<close> of the metadata store, which the
  sources only call.  \<open>aggregate(filter, {sum})\<close> is the sum of \<open>size\<close> over the matching
  records; \<open>upsert(records)\<close> stores one durable record per given record, \<open>hash\<close> being
  unique.
\<close>

definition database_aggregate_size :: "env \<Rightarrow> (File \<Rightarrow> bool) \<Rightarrow> int io" where
  "database_aggregate_size ev query =
     then_io (perform ev DbAggregate) (\<lambda>_ s. (Inr (sum_list (map size' (filter query (db s)))), s))"

fun upsert_row :: "File \<Rightarrow> File list \<Rightarrow> File list" where
  "upsert_row f [] = [f]"
| "upsert_row f (g # gs) = (if hash g = hash f then f # gs else g # upsert_row f gs)"

definition database_upsert :: "env \<Rightarrow> File list \<Rightarrow> unit io" where
  "database_upsert ev rows =
     then_io (perform ev (DbUpsert rows)) (\<lambda>_ s. (Inr (), s\<lparr>db := fold upsert_row rows (db s)\<rparr>))"

subsection \<open>Tasks\<close>

text \<open>
  Modelled from the spec: the constructor, the getters and the methods \<open>resolve\<close> and
  \<open>reject\<close> of \<open>Task\<close>.  A new Task has the fields of the file and no waiter; \<open>filename\<close>
  is \<open><hash>-<name>\<close>, the scratch path is keyed by the hash, the path in the working copy
  by the filename; \<open>resolve\<close> resolves every waiter with the task's public URL and
  \<open>reject\<close> rejects every waiter with the given error.
\<close>

definition newTask :: "FileBase \<Rightarrow> Task" where
  "newTask file = \<lparr>hash = hash file, name = name file, size' = size' file,
     branch_opt = None, resolvers = [], rejectors = []\<rparr>"

definition join :: "string \<Rightarrow> string \<Rightarrow> string" where
  \<comment> \<open>\<open>path.join\<close> of two segments that need no normalisation\<close>
  "join a b = a @ ''/'' @ b"

definition filename :: "Task \<Rightarrow> string" where
  "filename t = hash t @ ''-'' @ name t"

definition tempPath :: "Config \<Rightarrow> Task \<Rightarrow> string" where
  "tempPath cfg t = join (tempDir cfg) (hash t)"

definition savePath :: "Config \<Rightarrow> Task \<Rightarrow> string" where
  "savePath cfg t = join (baseDir cfg) (filename t)"

definition Task_file :: "Task \<Rightarrow> File option" where
  \<comment> \<open>the task read as a \<open>File\<close>, once its branch is assigned\<close>
  "Task_file t = (case branch_opt t of None \<Rightarrow> None
     | Some b \<Rightarrow> Some \<lparr>hash = hash t, name = name t, size' = size' t, branch = b\<rparr>)"

definition settle :: "settled \<Rightarrow> promise \<Rightarrow> settled list \<Rightarrow> settled list" where
  \<comment> \<open>calling \<open>resolve\<close> or \<open>reject\<close> of a promise settles it only while it is pending\<close>
  "settle v p ps = (if p < length ps \<and> ps ! p = Pending then ps[p := v] else ps)"

subsection \<open>The asset store\<close>

definition toPublicUrl :: "Config \<Rightarrow> File \<Rightarrow> string" where
  "toPublicUrl cfg file =
     ''https://cdn.jsdelivr.net/gh/'' @ user (github cfg) @ ''/'' @ repo (github cfg) @ ''@''
       @ numToString 10 (branch file) @ ''/'' @ hash file @ ''-'' @ name file"

definition Task_resolve :: "Config \<Rightarrow> ref \<Rightarrow> state \<Rightarrow> state" where
  \<comment> \<open>\<open>mainLoop\<close> assigns the branch of a task before it resolves it\<close>
  "Task_resolve cfg r s =
     (let t = heap s ! r
      in case Task_file t of
           None \<Rightarrow> s
         | Some f \<Rightarrow> s\<lparr>promises := fold (settle (Resolved (toPublicUrl cfg f))) (resolvers t) (promises s)\<rparr>)"

definition Task_reject :: "error \<Rightarrow> ref \<Rightarrow> state \<Rightarrow> state" where
  "Task_reject e r s =
     (let t = heap s ! r
      in s\<lparr>promises := fold (settle (Rejected e)) (rejectors t) (promises s)\<rparr>)"

definition PTC_BASE64 :: string where
  "PTC_BASE64 = ''base64://''"

definition getBranch :: "env \<Rightarrow> Config \<Rightarrow> bool \<Rightarrow> int \<Rightarrow> Branch io" where
  "getBranch ev cfg forceNew offset =
     then_io (database_get ev (\<lambda>_. True)
         (Some (Opts \<lparr>opt_limit = Some 1, opt_offset = None, opt_fields = Some [''branch'']\<rparr>)))
       (\<lambda>rows.
       case rows of
         [] \<Rightarrow> succeed \<lparr>bbranch = offset, bsize = 0\<rparr>
       | file # _ \<Rightarrow>
           if forceNew then succeed \<lparr>bbranch = branch file + offset, bsize = 0\<rparr>
           else then_io (database_aggregate_size ev (\<lambda>f. branch f = branch file)) (\<lambda>sz.
             if sz \<ge> maxBranchSize cfg
             then succeed \<lparr>bbranch = branch file + offset, bsize = 0\<rparr>
             else succeed \<lparr>bbranch = branch file, bsize = sz\<rparr>))"

definition checkout :: "env \<Rightarrow> Config \<Rightarrow> bool \<Rightarrow> bool \<Rightarrow> int \<Rightarrow> Branch io" where
  "checkout ev cfg forceNew fetch offset =
     then_io (getBranch ev cfg forceNew offset) (\<lambda>res.
       let branchName = toBranchName (bbranch res)
       in if bsize res = 0 then
            then_io (perform ev (GitCheckoutOrphan branchName)) (\<lambda>_.
            then_io (perform ev GitRmAll) (\<lambda>_.
            succeed res))
          else
            then_io (if fetch then perform ev (GitFetch branchName) else succeed ()) (\<lambda>_.
            then_io (perform ev (GitCheckoutForce branchName)) (\<lambda>_.
            then_io (if fetch then perform ev (GitResetHard (''origin/'' @ branchName))
                     else succeed ()) (\<lambda>_.
            succeed res))))"

definition createTask :: "FileBase \<Rightarrow> state \<Rightarrow> promise \<times> state" where
  \<comment> \<open>the executor of the new promise runs at once; the promise is returned\<close>
  "createTask file s =
     (let p = length (promises s);
          s1 = s\<lparr>promises := promises s @ [Pending]\<rparr>;
          (task, s2) =
            (case map_of (taskMap s1) (hash file) of
               Some r \<Rightarrow> (r, s1)
             | None \<Rightarrow>
                 (let r = length (heap s1)
                  in (r, s1\<lparr>heap := heap s1 @ [newTask file],
                            taskQueue := taskQueue s1 @ [r],
                            taskMap := AList.update (hash file) r (taskMap s1)\<rparr>)));
          t = heap s2 ! task
      in (p, s2\<lparr>heap := (heap s2)[task := t\<lparr>resolvers := resolvers t @ [p],
                                              rejectors := rejectors t @ [p]\<rparr>]\<rparr>))"

fun getTasks_loop :: "int \<Rightarrow> Task list \<Rightarrow> int \<Rightarrow> ref list \<Rightarrow> ref list \<Rightarrow> ref list \<times> ref list" where
  \<comment> \<open>the \<open>while\<close> loop: the running \<open>size\<close> (here \<open>sz\<close>), the queue, the tasks popped so far\<close>
  "getTasks_loop available hp sz [] tasks = (tasks, [])"
| "getTasks_loop available hp sz (task # queue) tasks =
     (let sz = sz + size' (hp ! task)
      in if sz > available then (tasks, task # queue)
         else getTasks_loop available hp sz queue (tasks @ [task]))"

definition getTasks :: "int \<Rightarrow> state \<Rightarrow> ref list \<times> state" where
  "getTasks available s =
     (let (tasks, queue) = getTasks_loop available (heap s) 0 (taskQueue s) []
      in (tasks, s\<lparr>taskQueue := queue\<rparr>))"

definition assignBranch :: "int \<Rightarrow> ref \<Rightarrow> state \<Rightarrow> state" where
  \<comment> \<open>\<open>task.branch = branch.branch\<close>\<close>
  "assignBranch b r s = s\<lparr>heap := (heap s)[r := (heap s ! r)\<lparr>branch_opt := Some b\<rparr>]\<rparr>"

fun renameAll :: "env \<Rightarrow> Config \<Rightarrow> ref list \<Rightarrow> unit io" where
  \<comment> \<open>\<open>Promise.all\<close> over the renames: every rename is started, the first failure is thrown\<close>
  "renameAll ev cfg [] s = (Inr (), s)"
| "renameAll ev cfg (r # rs) s =
     (let (res, s1) = perform ev (FsRename (tempPath cfg (heap s ! r)) (savePath cfg (heap s ! r))) s;
          (rest, s2) = renameAll ev cfg rs s1
      in (case res of Inl e \<Rightarrow> (Inl e, s2) | Inr _ \<Rightarrow> (rest, s2)))"

definition commitBatch :: "env \<Rightarrow> Config \<Rightarrow> Branch \<Rightarrow> ref list \<Rightarrow> unit io" where
  \<comment> \<open>the body of the \<open>try\<close> block\<close>
  "commitBatch ev cfg br tasks =
     then_io (\<lambda>s. renameAll ev cfg tasks (fold (assignBranch (bbranch br)) tasks s)) (\<lambda>_.
     then_io (\<lambda>s. perform ev (GitAdd (map (\<lambda>r. filename (heap s ! r)) tasks)) s) (\<lambda>_.
     then_io (perform ev (GitCommit ''upload'')) (\<lambda>_.
     then_io (perform ev (GitPush (toBranchName (bbranch br)))) (\<lambda>_.
     then_io (\<lambda>s. database_upsert ev (List.map_filter (\<lambda>r. Task_file (heap s ! r)) tasks) s) (\<lambda>_ s.
     (Inr (), fold (Task_resolve cfg) tasks s))))))"

definition processBatch :: "env \<Rightarrow> Config \<Rightarrow> Branch \<Rightarrow> ref list \<Rightarrow> unit io" where
  \<comment> \<open>\<open>try\<close>, \<open>catch\<close> and \<open>finally\<close>\<close>
  "processBatch ev cfg br tasks s =
     (let (res, s1) = commitBatch ev cfg br tasks s;
          s2 = (case res of
                  Inr _ \<Rightarrow> s1
                | Inl e \<Rightarrow> fold (Task_reject e) tasks
                    (emit (LogWarn (''Errored processing files: '' @ error_toString e)) s1));
          s3 = s2\<lparr>taskMap := fold (\<lambda>r. AList.delete (hash (heap s2 ! r))) tasks (taskMap s2)\<rparr>
      in (Inr (), s3))"

definition mainLoop :: "env \<Rightarrow> Config \<Rightarrow> unit io" where
  "mainLoop ev cfg s =
     (if taskQueue s = [] then (Inr (), emit (Sleep (flushInterval cfg)) s)
      else
        then_io (checkout ev cfg False False 1) (\<lambda>br.
        then_io (\<lambda>s. let (tasks, s') = getTasks (maxBranchSize cfg - bsize br) s
                     in (Inr tasks, s')) (\<lambda>tasks.
        then_io (if tasks = [] then
                   then_io (checkout ev cfg True False 1) (\<lambda>br.
                   (\<lambda>s. let (tasks, s') = getTasks (maxBranchSize cfg) s
                        in (Inr (br, tasks), s')))
                 else succeed (br, tasks)) (\<lambda>(br, tasks).
        if tasks = [] then succeed ()
        else processBatch ev cfg br tasks))) s)"

definition getAssetBuffer :: "env \<Rightarrow> string \<Rightarrow> buffer io" where
  "getAssetBuffer ev url =
     (if take (length PTC_BASE64) url = PTC_BASE64
      then succeed (base64_decode ev (drop (length PTC_BASE64) url))
      else then_io (perform ev (HttpGet url)) (\<lambda>_. succeed (http_body ev url)))"

definition getFileName :: "env \<Rightarrow> buffer \<Rightarrow> string io" where
  \<comment> \<open>destructuring \<open>undefined\<close>, which \<open>fromBuffer\<close> returns for unknown content, throws\<close>
  "getFileName ev buffer =
     then_io (perform ev FromBuffer) (\<lambda>_.
       case file_ext ev buffer of
         None \<Rightarrow> throw (Error ''TypeError'' ''Cannot destructure property ext'')
       | Some ext \<Rightarrow> succeed (''untitled.'' @ ext))"

datatype upload_result = Url string | Waiting promise

definition upload :: "env \<Rightarrow> Config \<Rightarrow> string \<Rightarrow> string option \<Rightarrow> upload_result io" where
  \<comment> \<open>the result is the URL at once, or the promise \<open>createTask\<close> returns\<close>
  "upload ev cfg url name_opt =
     then_io (getAssetBuffer ev url) (\<lambda>buffer.
       let hash' = sha1_hex ev buffer
       in then_io (database_get ev (\<lambda>f. hash f = hash') None) (\<lambda>rows.
            case rows of
              file # _ \<Rightarrow> succeed (Url (toPublicUrl cfg file))
            | [] \<Rightarrow>
                then_io (case name_opt of
                           Some n \<Rightarrow> if n = [] then getFileName ev buffer else succeed n
                         | None \<Rightarrow> getFileName ev buffer) (\<lambda>name'.
                then_io (perform ev (FsWriteFile (join (tempDir cfg) hash') buffer)) (\<lambda>_ s.
                  let (p, s') = createTask
                        \<lparr>hash = hash', name = name', size' = int (length buffer)\<rparr> s
                  in (Inr (Waiting p), s')))))"

definition iteration :: "Config \<Rightarrow> env \<Rightarrow> state \<Rightarrow> state" where
  \<comment> \<open>the body of the \<open>while\<close> loop of \<open>start\<close>, and a \<open>disconnect\<close> that fires meanwhile\<close>
  "iteration cfg ev s =
     (let (res, s1) = mainLoop ev cfg s;
          s2 = (case res of
                  Inr _ \<Rightarrow> s1
                | Inl e \<Rightarrow> emit (LogWarn (''Loop failed: '' @ error_toString e)) s1)
      in if disconnect ev then s2\<lparr>isActive := False\<rparr> else s2)"

fun start :: "Config \<Rightarrow> env list \<Rightarrow> state \<Rightarrow> state option" where
  \<comment> \<open>one answer of the collaborators per iteration; \<open>None\<close>: the loop is still running\<close>
  "start cfg [] s = (if isActive s then None else Some s)"
| "start cfg (ev # evs) s = (if isActive s then start cfg evs (iteration cfg ev s) else Some s)"

definition init :: state where
  "init = \<lparr>taskQueue = [], taskMap = [], heap = [], promises = [], db = [],
     isActive = False, trace = []\<rparr>"

subsection \<open>Definitions that follow the specification's words\<close>

definition branchNameSpec :: "int \<Rightarrow> string" where
  \<comment> \<open>the id in base 36, zero-padded on the left to width 8\<close>
  "branchNameSpec n = (let s = numToString 36 n in replicate (8 - length s) CHR ''0'' @ s)"

definition publicUrlSpec :: "Config \<Rightarrow> File \<Rightarrow> string" where
  \<comment> \<open>\<open>https://cdn.jsdelivr.net/gh/<user>/<repo>@<branch name>/<hash>-<name>\<close>\<close>
  "publicUrlSpec cfg file =
     ''https://cdn.jsdelivr.net/gh/'' @ user (github cfg) @ ''/'' @ repo (github cfg) @ ''@''
       @ toBranchName (branch file) @ ''/'' @ hash file @ ''-'' @ name file"

definition totalSize :: "Task list \<Rightarrow> ref list \<Rightarrow> int" where
  \<comment> \<open>the cumulative size of a list of tasks\<close>
  "totalSize hp rs = sum_list (map (\<lambda>r. size' (hp ! r)) rs)"

definition selectBranchSpec :: "int \<Rightarrow> bool \<Rightarrow> int \<Rightarrow> File list \<Rightarrow> Branch" where
  \<comment> \<open>\<open>selectBranch(forceNew, offset)\<close> on a table with a record; the current branch is the
      one written to last\<close>
  "selectBranchSpec capacity forceNew offset rows =
     (let current = branch (last rows);
          sz = sum_list (map size' (filter (\<lambda>f. branch f = current) rows))
      in if forceNew \<or> capacity \<le> sz then \<lparr>bbranch = current + offset, bsize = 0\<rparr>
         else \<lparr>bbranch = current, bsize = sz\<rparr>)"

subsection \<open>Concrete configurations and states\<close>

definition cfg_example :: Config where
  "cfg_example = \<lparr>github = \<lparr>user = ''u'', repo = ''r'', token = ''t''\<rparr>,
     baseDir = ''repo'', tempDir = ''tmp'', flushInterval = 3000, maxBranchSize = 25\<rparr>"

definition fifo_example :: state where
  \<comment> \<open>three tasks of sizes 10, 10 and 30, queued in that order\<close>
  "fifo_example = init\<lparr>
     heap := [newTask \<lparr>hash = ''a'', name = ''a.png'', size' = 10\<rparr>,
              newTask \<lparr>hash = ''b'', name = ''b.png'', size' = 10\<rparr>,
              newTask \<lparr>hash = ''c'', name = ''c.png'', size' = 30\<rparr>],
     taskQueue := [0, 1, 2],
     taskMap := [(''a'', 0), (''b'', 1), (''c'', 2)]\<rparr>"

definition ok_env :: env where
  \<comment> \<open>collaborators that never throw\<close>
  "ok_env = \<lparr>fails = (\<lambda>_. None), base64_decode = (\<lambda>x. x), sha1_hex = (\<lambda>b. b),
     http_body = (\<lambda>_. []), file_ext = (\<lambda>_. Some ''png''), disconnect = False\<rparr>"

definition full_branch_example :: state where
  \<comment> \<open>branch 3 holds 25 bytes, the capacity of \<open>cfg_example\<close>\<close>
  "full_branch_example = init\<lparr>db :=
     [\<lparr>hash = ''x'', name = ''x.png'', size' = 15, branch = 3\<rparr>,
      \<lparr>hash = ''y'', name = ''y.png'', size' = 10, branch = 3\<rparr>]\<rparr>"

definition two_branches_example :: state where
  \<comment> \<open>branch 1 and then branch 2 were filled to the capacity of \<open>cfg_example\<close>\<close>
  "two_branches_example = init\<lparr>db :=
     [\<lparr>hash = ''x'', name = ''x.png'', size' = 25, branch = 1\<rparr>,
      \<lparr>hash = ''y'', name = ''y.png'', size' = 25, branch = 2\<rparr>]\<rparr>"

definition second_branch_example :: state where
  \<comment> \<open>branch 1 was filled to the capacity of \<open>cfg_example\<close>, branch 2 holds 5 bytes\<close>
  "second_branch_example = init\<lparr>db :=
     [\<lparr>hash = ''x'', name = ''x.png'', size' = 25, branch = 1\<rparr>,
      \<lparr>hash = ''y'', name = ''y.png'', size' = 5, branch = 2\<rparr>]\<rparr>"

definition oversized_example :: state where
  \<comment> \<open>an empty store and one queued task, larger than the capacity of \<open>cfg_example\<close>\<close>
  "oversized_example = init\<lparr>
     heap := [newTask \<lparr>hash = ''c'', name = ''c.png'', size' = 30\<rparr>],
     taskQueue := [0],
     taskMap := [(''c'', 0)]\<rparr>"

definition queued_example :: state where
  \<comment> \<open>after \<open>createTask\<close> for the hashes a, b and again a\<close>
  "queued_example =
     snd (createTask \<lparr>hash = ''a'', name = ''a2.png'', size' = 10\<rparr>
       (snd (createTask \<lparr>hash = ''b'', name = ''b.png'', size' = 10\<rparr>
         (snd (createTask \<lparr>hash = ''a'', name = ''a.png'', size' = 10\<rparr> init)))))"


definition db_fail_env :: "bool \<Rightarrow> env" where
  \<comment> \<open>collaborators of which the store's \<open>get\<close> throws; the flag is \<open>disconnect\<close>\<close>
  "db_fail_env stop = ok_env\<lparr>fails :=
     (\<lambda>op. case op of DbGet \<Rightarrow> Some (Error ''DbError'' ''down'') | _ \<Rightarrow> None), disconnect := stop\<rparr>"

subsection \<open>Invariants of the queue\<close>

definition batch_ok :: "state \<Rightarrow> ref list \<Rightarrow> bool" where
  \<comment> \<open>distinct Task objects, whose waiters are pending promises, shared with no other task\<close>
  "batch_ok s tasks \<longleftrightarrow>
     distinct tasks
   \<and> (\<forall>r\<in>set tasks. r < length (heap s)
        \<and> rejectors (heap s ! r) = resolvers (heap s ! r)
        \<and> distinct (resolvers (heap s ! r))
        \<and> (\<forall>p\<in>set (resolvers (heap s ! r)). p < length (promises s) \<and> promises s ! p = Pending))
   \<and> (\<forall>r\<in>set tasks. \<forall>r'\<in>set tasks. r \<noteq> r' \<longrightarrow>
        set (resolvers (heap s ! r)) \<inter> set (resolvers (heap s ! r')) = {})"

definition queue_inv :: "state \<Rightarrow> bool" where
  \<comment> \<open>the index holds exactly the queued tasks, under their hashes, which are distinct\<close>
  "queue_inv s \<longleftrightarrow>
     batch_ok s (taskQueue s)
   \<and> taskMap s = map (\<lambda>r. (hash (heap s ! r), r)) (taskQueue s)
   \<and> distinct (map (\<lambda>r. hash (heap s ! r)) (taskQueue s))"

text \<open>
  The states of a store: it starts with an empty queue over any table, \<open>connect\<close> and
  \<open>disconnect\<close> set \<open>isActive\<close>, and a call of \<open>createTask\<close> or \<open>upload\<close> and an
  iteration of \<open>mainLoop\<close> are one step each, whatever the collaborators answer.  Callers
  that run between the awaits of one iteration are not modelled.
\<close>

inductive reachable :: "Config \<Rightarrow> state \<Rightarrow> bool" for cfg :: Config where
  fresh: "reachable cfg (init\<lparr>db := rows\<rparr>)"
| connect: "reachable cfg s \<Longrightarrow> reachable cfg (s\<lparr>isActive := b\<rparr>)"
| create: "reachable cfg s \<Longrightarrow> reachable cfg (snd (createTask file s))"
| upload: "reachable cfg s \<Longrightarrow> reachable cfg (snd (upload ev cfg url name_opt s))"
| loop: "reachable cfg s \<Longrightarrow> reachable cfg (snd (mainLoop ev cfg s))"

subsection \<open>Notions used in the proofs\<close>

definition traced :: "'a io \<Rightarrow> bool" where
  \<comment> \<open>an operation whose only effect on the state is to extend the trace\<close>
  "traced m \<longleftrightarrow> (\<forall>s. \<exists>ops. snd (m s) = s\<lparr>trace := trace s @ ops\<rparr>)"

definition stable :: "(state \<Rightarrow> bool) \<Rightarrow> 'a io \<Rightarrow> bool" where
  \<comment> \<open>an operation that preserves a property of the state\<close>
  "stable P m \<longleftrightarrow> (\<forall>s. P s \<longrightarrow> P (snd (m s)))"

definition assignAll :: "int \<Rightarrow> ref list \<Rightarrow> Task list \<Rightarrow> Task list" where
  \<comment> \<open>the heap once \<open>branch\<close> is assigned to every task of the batch\<close>
  "assignAll b tasks hp = fold (\<lambda>r h. h[r := (h ! r)\<lparr>branch_opt := Some b\<rparr>]) tasks hp"

definition recordOf :: "int \<Rightarrow> Task \<Rightarrow> File" where
  \<comment> \<open>the durable record of a task committed to branch \<open>b\<close>\<close>
  "recordOf b t = \<lparr>hash = hash t, name = name t, size' = size' t, branch = b\<rparr>"

definition settleAll :: "(ref \<Rightarrow> settled) \<Rightarrow> (ref \<Rightarrow> promise list) \<Rightarrow> ref list \<Rightarrow> settled list \<Rightarrow> settled list" where
  \<comment> \<open>settling, task by task, the waiters \<open>W r\<close> of each task \<open>r\<close> with \<open>v r\<close>\<close>
  "settleAll v W tasks ps = fold (\<lambda>r. fold (settle (v r)) (W r)) tasks ps"


section \<open>Properties\<close>

subsection \<open>Rendering of branch ids\<close>

lemma replicate_numeral [simp]:
  "replicate (numeral k) x = x # replicate (pred_numeral k) x"
  by (simp add: numeral_eq_Suc)

lemma natToString_numeral:
  "natToString radix (numeral k) =
     (if radix < 2 \<or> numeral k < radix then [digitChar (numeral k)]
      else natToString radix (numeral k div radix) @ [digitChar (numeral k mod radix)])"
  by (rule natToString.simps)

lemma natToString_small:
  "natToString radix 0 = [digitChar 0]"
  "natToString radix (Suc 0) = [digitChar (Suc 0)]"
proof -
  show "natToString radix 0 = [digitChar 0]"
    by (subst natToString.simps) auto
  show "natToString radix (Suc 0) = [digitChar (Suc 0)]"
    by (subst natToString.simps) auto
qed

lemmas render_defs =
  toBranchName_def padStart_def numToString_def natToString_numeral natToString_small
  digitChar_def

text \<open>
  Claim C2: the name of a branch is to be its id in base 36, padded on the left with zeros
  to the width 8.  \<open>toBranchName\<close> calls \<open>padStart(8)\<close> without a fill string, and so pads
  with spaces: branch 2 is named \<open>"       2"\<close> where the claim has \<open>"00000002"\<close>, and
  branch 71 \<open>"      1z"\<close> where the claim has \<open>"0000001z"\<close>.  These names are the ones
  \<open>checkout\<close> and \<open>mainLoop\<close> hand to \<open>git checkout --orphan\<close> and \<open>git push\<close>.
\<close>

theorem toBranchName_pads_with_spaces:
  "toBranchName 2 = ''       2'' \<and> branchNameSpec 2 = ''00000002''
   \<and> toBranchName 71 = ''      1z'' \<and> branchNameSpec 71 = ''0000001z''
   \<and> toBranchName 2 \<noteq> branchNameSpec 2"
  by (simp add: render_defs branchNameSpec_def)

subsection \<open>Public URLs\<close>

text \<open>
  Claim C1: the URL is to name the branch as \<open>toBranchName\<close> renders it, the name under
  which \<open>checkout\<close> creates the branch and \<open>mainLoop\<close> pushes it.  \<open>toPublicUrl\<close>
  interpolates the number itself, which JavaScript renders in decimal without padding: for
  the record \<open>{hash: "abc", name: "f.png", branch: 2}\<close> and \<open>{user: "u", repo: "r"}\<close> the
  URL has \<open>@2\<close> where the claim has \<open>@       2\<close>, and for branch 10 it has \<open>@10\<close> where
  the branch is named \<open>"       a"\<close>.
\<close>

theorem toPublicUrl_branch_in_decimal:
  "toPublicUrl cfg_example \<lparr>hash = ''abc'', name = ''f.png'', size' = 1, branch = 2\<rparr>
     = ''https://cdn.jsdelivr.net/gh/u/r@2/abc-f.png''
   \<and> publicUrlSpec cfg_example \<lparr>hash = ''abc'', name = ''f.png'', size' = 1, branch = 2\<rparr>
     = ''https://cdn.jsdelivr.net/gh/u/r@       2/abc-f.png''
   \<and> toPublicUrl cfg_example \<lparr>hash = ''abc'', name = ''f.png'', size' = 1, branch = 10\<rparr>
     = ''https://cdn.jsdelivr.net/gh/u/r@10/abc-f.png''
   \<and> toBranchName 10 = ''       a''"
  by (simp add: toPublicUrl_def publicUrlSpec_def cfg_example_def render_defs)

subsection \<open>Draining the queue\<close>

lemma totalSize_simps [simp]:
  "totalSize hp [] = 0"
  "totalSize hp (r # rs) = size' (hp ! r) + totalSize hp rs"
  "totalSize hp (rs @ rs') = totalSize hp rs + totalSize hp rs'"
  by (simp_all add: totalSize_def)

lemma totalSize_nonneg:
  "\<forall>r\<in>set rs. 0 \<le> size' (hp ! r) \<Longrightarrow> 0 \<le> totalSize hp rs"
  by (induction rs) simp_all

lemma getTasks_loop_prefix:
  "getTasks_loop available hp sz queue acc = (tasks, rest) \<Longrightarrow>
   \<exists>popped. tasks = acc @ popped \<and> queue = popped @ rest
     \<and> (\<forall>k. 0 < k \<and> k \<le> length popped \<longrightarrow> sz + totalSize hp (take k popped) \<le> available)
     \<and> (rest \<noteq> [] \<longrightarrow> available < sz + totalSize hp popped + size' (hp ! hd rest))"
proof (induction queue arbitrary: sz acc)
  case Nil
  then show ?case by simp
next
  case (Cons task queue)
  show ?case
  proof (cases "sz + size' (hp ! task) > available")
    case True
    with Cons.prems have "tasks = acc" "rest = task # queue" by simp_all
    with True show ?thesis by simp
  next
    case False
    with Cons.prems have
      "getTasks_loop available hp (sz + size' (hp ! task)) queue (acc @ [task]) = (tasks, rest)"
      by simp
    from Cons.IH[OF this] obtain popped where p:
      "tasks = (acc @ [task]) @ popped \<and> queue = popped @ rest
       \<and> (\<forall>k. 0 < k \<and> k \<le> length popped \<longrightarrow>
             sz + size' (hp ! task) + totalSize hp (take k popped) \<le> available)
       \<and> (rest \<noteq> [] \<longrightarrow>
             available < sz + size' (hp ! task) + totalSize hp popped + size' (hp ! hd rest))" ..
    have fits: "sz + totalSize hp (take k (task # popped)) \<le> available"
      if "0 < k \<and> k \<le> length (task # popped)" for k
    proof (cases k)
      case 0
      with that show ?thesis by simp
    next
      case (Suc j)
      show ?thesis
      proof (cases j)
        case 0
        with Suc False show ?thesis by simp
      next
        case (Suc i)
        with \<open>k = Suc j\<close> that p show ?thesis by (simp add: add.assoc)
      qed
    qed
    show ?thesis
      using p fits by (intro exI[of _ "task # popped"]) (simp add: add.assoc)
  qed
qed

lemma longer_prefix_exceeds:
  assumes nonneg: "\<forall>r\<in>set (tasks @ rest). 0 \<le> size' (hp ! r)"
    and over: "rest \<noteq> [] \<longrightarrow> available < totalSize hp tasks + size' (hp ! hd rest)"
    and k: "k \<le> length (tasks @ rest)" "totalSize hp (take k (tasks @ rest)) \<le> available"
  shows "k \<le> length tasks"
proof (rule ccontr)
  assume "\<not> k \<le> length tasks"
  then obtain j where j: "k = length tasks + Suc j"
    by (metis add_Suc_right less_imp_Suc_add not_le_imp_less)
  with k(1) obtain x xs where rest: "rest = x # xs"
    by (cases rest) auto
  from j rest have tk: "take k (tasks @ rest) = tasks @ x # take j xs"
    by simp
  from nonneg rest have "0 \<le> totalSize hp (take j xs)"
    by (intro totalSize_nonneg) (auto dest: in_set_takeD)
  with tk have "totalSize hp tasks + size' (hp ! x) \<le> totalSize hp (take k (tasks @ rest))"
    by simp
  with over rest k(2) show False by simp
qed

text \<open>
  Claim C3: \<open>getTasks\<close> pops a prefix of the queue and leaves the rest queued in order;
  the cumulative size of the popped tasks never exceeds \<open>available\<close> (at any point of the
  loop); when a task is left, adding the first one left would exceed \<open>available\<close>, whatever
  comes behind it; and, sizes being non-negative, no longer prefix of the queue fits.  With
  sizes 10, 10, 30 and a budget of 25 the first two tasks are returned.
\<close>

theorem getTasks_maximal_prefix:
  "getTasks available s = (tasks, s') \<Longrightarrow>
     taskQueue s = tasks @ taskQueue s'
   \<and> s' = s\<lparr>taskQueue := drop (length tasks) (taskQueue s)\<rparr>
   \<and> (\<forall>k. 0 < k \<and> k \<le> length tasks \<longrightarrow> totalSize (heap s) (take k tasks) \<le> available)
   \<and> (taskQueue s' \<noteq> [] \<longrightarrow>
        available < totalSize (heap s) tasks + size' (heap s ! hd (taskQueue s')))
   \<and> ((\<forall>r\<in>set (taskQueue s). 0 \<le> size' (heap s ! r)) \<longrightarrow>
        (\<forall>k\<le>length (taskQueue s).
           totalSize (heap s) (take k (taskQueue s)) \<le> available \<longrightarrow> k \<le> length tasks))"
proof -
  assume a: "getTasks available s = (tasks, s')"
  obtain ts rest where l: "getTasks_loop available (heap s) 0 (taskQueue s) [] = (ts, rest)"
    by (cases "getTasks_loop available (heap s) 0 (taskQueue s) []")
  with a have eq: "tasks = ts" "s' = s\<lparr>taskQueue := rest\<rparr>"
    by (simp_all add: getTasks_def)
  from getTasks_loop_prefix[OF l] obtain popped where p:
    "ts = [] @ popped \<and> taskQueue s = popped @ rest
     \<and> (\<forall>k. 0 < k \<and> k \<le> length popped \<longrightarrow> 0 + totalSize (heap s) (take k popped) \<le> available)
     \<and> (rest \<noteq> [] \<longrightarrow> available < 0 + totalSize (heap s) popped + size' (heap s ! hd rest))" ..
  then have pop: "ts = popped" by simp
  with p have q: "taskQueue s = tasks @ rest"
    and over: "rest \<noteq> [] \<longrightarrow> available < totalSize (heap s) tasks + size' (heap s ! hd rest)"
    by (simp_all add: eq)
  have maximal: "k \<le> length tasks"
    if "\<forall>r\<in>set (taskQueue s). 0 \<le> size' (heap s ! r)" "k \<le> length (taskQueue s)"
      "totalSize (heap s) (take k (taskQueue s)) \<le> available" for k
    using that(1) over that(2,3) unfolding q by (rule longer_prefix_exceeds)
  have fits: "\<forall>k. 0 < k \<and> k \<le> length tasks \<longrightarrow> totalSize (heap s) (take k tasks) \<le> available"
    using p pop eq(1) by simp
  have s': "s' = s\<lparr>taskQueue := drop (length tasks) (taskQueue s)\<rparr>" "taskQueue s' = rest"
    using eq(2) q by simp_all
  show ?thesis
    unfolding s'(2) using q s'(1) fits over maximal by blast
qed

theorem getTasks_maximal_prefix_witness:
  "getTasks 25 fifo_example = ([0, 1], fifo_example\<lparr>taskQueue := [2]\<rparr>)
   \<and> map (\<lambda>r. size' (heap fifo_example ! r)) (taskQueue fifo_example) = [10, 10, 30]
   \<and> totalSize (heap fifo_example) [0, 1] \<le> 25
   \<and> 25 < totalSize (heap fifo_example) [0, 1] + size' (heap fifo_example ! 2)"
  using getTasks_maximal_prefix[of 25 fifo_example "[0, 1]" "fifo_example\<lparr>taskQueue := [2]\<rparr>"]
  by (simp add: getTasks_def fifo_example_def init_def newTask_def totalSize_def)

subsection \<open>Choosing and checking out the branch\<close>

lemmas io_defs = then_io_def succeed_def throw_def perform_def emit_def

lemmas store_defs = getBranch_def checkout_def database_get_def resolveModifier_def
  database_aggregate_size_def

lemma getBranch_empty:
  "db s = [] \<Longrightarrow> getBranch ev cfg forceNew offset s =
     (case fails ev DbGet of
        Some e \<Rightarrow> (Inl e, s)
      | None \<Rightarrow> (Inr \<lparr>bbranch = offset, bsize = 0\<rparr>, emit DbGet s))"
  by (simp add: getBranch_def database_get_def resolveModifier_def Let_def io_defs split: option.splits)

lemma getBranch_nonempty:
  "db s = file # rest \<Longrightarrow> fails ev DbGet = None \<Longrightarrow> forceNew \<or> fails ev DbAggregate = None \<Longrightarrow>
   getBranch ev cfg forceNew offset s =
     (Inr (if forceNew \<or> maxBranchSize cfg \<le> sum_list (map size' (filter (\<lambda>f. branch f = branch file) (db s)))
           then \<lparr>bbranch = branch file + offset, bsize = 0\<rparr>
           else \<lparr>bbranch = branch file,
                  bsize = sum_list (map size' (filter (\<lambda>f. branch f = branch file) (db s)))\<rparr>),
      s\<lparr>trace := trace s @ (if forceNew then [DbGet] else [DbGet, DbAggregate])\<rparr>)"
  by (auto simp add: getBranch_def database_get_def resolveModifier_def Let_def database_aggregate_size_def io_defs)

lemma checkout_ok:
  "getBranch ev cfg forceNew offset s = (Inr res, s1) \<Longrightarrow> \<forall>n. fails ev (GitCheckoutOrphan n) = None \<Longrightarrow>
   fails ev GitRmAll = None \<Longrightarrow> \<forall>n. fails ev (GitFetch n) = None \<Longrightarrow>
   \<forall>n. fails ev (GitCheckoutForce n) = None \<Longrightarrow> \<forall>n. fails ev (GitResetHard n) = None \<Longrightarrow>
   checkout ev cfg forceNew fetch offset s =
     (Inr res, s1\<lparr>trace := trace s1 @
        (if bsize res = 0 then [GitCheckoutOrphan (toBranchName (bbranch res)), GitRmAll]
         else if fetch then [GitFetch (toBranchName (bbranch res)),
                             GitCheckoutForce (toBranchName (bbranch res)),
                             GitResetHard (''origin/'' @ toBranchName (bbranch res))]
         else [GitCheckoutForce (toBranchName (bbranch res))])\<rparr>)"
  by (simp add: checkout_def io_defs Let_def)

lemma checkout_result:
  assumes "checkout ev cfg forceNew fetch offset s = (Inr res, s2)"
  shows "\<exists>s1 ops. getBranch ev cfg forceNew offset s = (Inr res, s1)
     \<and> s2 = s1\<lparr>trace := trace s1 @ ops\<rparr>
     \<and> ops = (if bsize res = 0 then [GitCheckoutOrphan (toBranchName (bbranch res)), GitRmAll]
         else if fetch then [GitFetch (toBranchName (bbranch res)),
                             GitCheckoutForce (toBranchName (bbranch res)),
                             GitResetHard (''origin/'' @ toBranchName (bbranch res))]
         else [GitCheckoutForce (toBranchName (bbranch res))])"
proof -
  obtain r s1 where g: "getBranch ev cfg forceNew offset s = (r, s1)"
    by (cases "getBranch ev cfg forceNew offset s")
  with assms show ?thesis
    by (cases r) (auto simp add: checkout_def io_defs Let_def split: option.splits if_splits)
qed

text \<open>
  What \<open>getBranch\<close> and \<open>checkout\<close> do when the store holds a record.  \<open>getBranch\<close>
  reads the branch of the first record the store returns.  It returns that id plus the
  offset, with size 0, if \<open>forceNew\<close> is set or the sizes recorded for that branch sum to at
  least \<open>maxBranchSize\<close>, and that id with the sum otherwise.  Whenever \<open>checkout\<close> returns,
  it returns what \<open>getBranch\<close> chose, and it has created an orphan branch and cleared the
  working tree exactly when the size returned is zero; otherwise it has force-checked out
  the existing branch.
\<close>

lemma getBranch_first_record:
  assumes "db s = file # rest"
  shows "(fails ev DbGet = None \<and> (forceNew \<or> fails ev DbAggregate = None) \<longrightarrow>
            fst (getBranch ev cfg forceNew offset s) =
              Inr (if forceNew \<or> maxBranchSize cfg \<le> sum_list (map size' (filter (\<lambda>f. branch f = branch file) (db s)))
                   then \<lparr>bbranch = branch file + offset, bsize = 0\<rparr>
                   else \<lparr>bbranch = branch file,
                          bsize = sum_list (map size' (filter (\<lambda>f. branch f = branch file) (db s)))\<rparr>))
       \<and> (\<forall>res s2. checkout ev cfg forceNew fetch offset s = (Inr res, s2) \<longrightarrow>
            fst (getBranch ev cfg forceNew offset s) = Inr res
            \<and> (GitCheckoutOrphan (toBranchName (bbranch res)) \<in> set (drop (length (trace s)) (trace s2))
                 \<longleftrightarrow> bsize res = 0)
            \<and> (GitRmAll \<in> set (drop (length (trace s)) (trace s2)) \<longleftrightarrow> bsize res = 0)
            \<and> (GitCheckoutForce (toBranchName (bbranch res)) \<in> set (drop (length (trace s)) (trace s2))
                 \<longleftrightarrow> bsize res \<noteq> 0))"
proof (intro conjI impI allI)
  assume "fails ev DbGet = None \<and> (forceNew \<or> fails ev DbAggregate = None)"
  with assms show "fst (getBranch ev cfg forceNew offset s) =
      Inr (if forceNew \<or> maxBranchSize cfg \<le> sum_list (map size' (filter (\<lambda>f. branch f = branch file) (db s)))
           then \<lparr>bbranch = branch file + offset, bsize = 0\<rparr>
           else \<lparr>bbranch = branch file,
                  bsize = sum_list (map size' (filter (\<lambda>f. branch f = branch file) (db s)))\<rparr>)"
    by (subst getBranch_nonempty[OF assms]) simp_all
next
  fix res s2
  assume c: "checkout ev cfg forceNew fetch offset s = (Inr res, s2)"
  from checkout_result[OF c] obtain s1 ops where r:
    "getBranch ev cfg forceNew offset s = (Inr res, s1)" "s2 = s1\<lparr>trace := trace s1 @ ops\<rparr>"
    "ops = (if bsize res = 0 then [GitCheckoutOrphan (toBranchName (bbranch res)), GitRmAll]
         else if fetch then [GitFetch (toBranchName (bbranch res)),
                             GitCheckoutForce (toBranchName (bbranch res)),
                             GitResetHard (''origin/'' @ toBranchName (bbranch res))]
         else [GitCheckoutForce (toBranchName (bbranch res))])"
    by blast
  from r(1) obtain dbops where d: "s1 = s\<lparr>trace := trace s @ dbops\<rparr>" "set dbops \<subseteq> {DbGet, DbAggregate}"
    using assms
    by (auto simp add: getBranch_def database_get_def resolveModifier_def Let_def database_aggregate_size_def io_defs
        split: option.splits if_splits)
  from r(2) d(1) have new: "drop (length (trace s)) (trace s2) = dbops @ ops"
    by simp
  from r(1) show "fst (getBranch ev cfg forceNew offset s) = Inr res" by simp
  from d(2) r(3) show "GitCheckoutOrphan (toBranchName (bbranch res)) \<in> set (drop (length (trace s)) (trace s2))
                 \<longleftrightarrow> bsize res = 0"
    unfolding new by auto
  from d(2) r(3) show "GitRmAll \<in> set (drop (length (trace s)) (trace s2)) \<longleftrightarrow> bsize res = 0"
    unfolding new by auto
  from d(2) r(3) show "GitCheckoutForce (toBranchName (bbranch res)) \<in> set (drop (length (trace s)) (trace s2))
                 \<longleftrightarrow> bsize res \<noteq> 0"
    unfolding new by auto
qed

text \<open>
  Claim C6: the branch to compare with the capacity is the current one, the branch written
  to last, and a rollover leads to the id after it.  \<open>getBranch\<close> asks the store for one
  record without an order (the order is left as a \<open>TODO\<close>) and gets the first one written,
  a record of the oldest branch.  With a capacity of 25, once \<open>x\<close> of size 25 is committed
  to branch 1 and \<open>y\<close> of size 25 to branch 2, \<open>getBranch\<close> returns \<open>{branch: 2, size: 0}\<close>
  where the claim has \<open>{branch: 3, size: 0}\<close>, and \<open>checkout\<close> creates branch 2 again as an
  orphan.  With \<open>y\<close> of size 5, \<open>getBranch\<close> returns
  \<open>{branch: 2, size: 0}\<close> where the claim has \<open>{branch: 2, size: 5}\<close>, and \<open>checkout\<close>
  creates an orphan branch where the claim has the checkout of the existing branch 2.
\<close>

theorem getBranch_reads_oldest_branch:
  "db two_branches_example =
     [\<lparr>hash = ''x'', name = ''x.png'', size' = 25, branch = 1\<rparr>,
      \<lparr>hash = ''y'', name = ''y.png'', size' = 25, branch = 2\<rparr>]
   \<and> maxBranchSize cfg_example = 25
   \<and> getBranch ok_env cfg_example False 1 two_branches_example
       = (Inr \<lparr>bbranch = 2, bsize = 0\<rparr>, two_branches_example\<lparr>trace := [DbGet, DbAggregate]\<rparr>)
   \<and> selectBranchSpec (maxBranchSize cfg_example) False 1 (db two_branches_example)
       = \<lparr>bbranch = 3, bsize = 0\<rparr>
   \<and> checkout ok_env cfg_example False False 1 two_branches_example
       = (Inr \<lparr>bbranch = 2, bsize = 0\<rparr>, two_branches_example\<lparr>trace :=
            [DbGet, DbAggregate, GitCheckoutOrphan ''       2'', GitRmAll]\<rparr>)
   \<and> db second_branch_example =
     [\<lparr>hash = ''x'', name = ''x.png'', size' = 25, branch = 1\<rparr>,
      \<lparr>hash = ''y'', name = ''y.png'', size' = 5, branch = 2\<rparr>]
   \<and> getBranch ok_env cfg_example False 1 second_branch_example
       = (Inr \<lparr>bbranch = 2, bsize = 0\<rparr>, second_branch_example\<lparr>trace := [DbGet, DbAggregate]\<rparr>)
   \<and> selectBranchSpec (maxBranchSize cfg_example) False 1 (db second_branch_example)
       = \<lparr>bbranch = 2, bsize = 5\<rparr>
   \<and> checkout ok_env cfg_example False False 1 second_branch_example
       = (Inr \<lparr>bbranch = 2, bsize = 0\<rparr>, second_branch_example\<lparr>trace :=
            [DbGet, DbAggregate, GitCheckoutOrphan ''       2'', GitRmAll]\<rparr>)"
proof -
  have 1: "getBranch ok_env cfg_example False 1 two_branches_example
       = (Inr \<lparr>bbranch = 2, bsize = 0\<rparr>, two_branches_example\<lparr>trace := [DbGet, DbAggregate]\<rparr>)"
    by (simp add: two_branches_example_def init_def ok_env_def cfg_example_def getBranch_def
      database_get_def resolveModifier_def Let_def database_aggregate_size_def io_defs)
  have 2: "getBranch ok_env cfg_example False 1 second_branch_example
       = (Inr \<lparr>bbranch = 2, bsize = 0\<rparr>, second_branch_example\<lparr>trace := [DbGet, DbAggregate]\<rparr>)"
    by (simp add: second_branch_example_def init_def ok_env_def cfg_example_def getBranch_def
      database_get_def resolveModifier_def Let_def database_aggregate_size_def io_defs)
  have 3: "checkout ok_env cfg_example False False 1 two_branches_example
       = (Inr \<lparr>bbranch = 2, bsize = 0\<rparr>, two_branches_example\<lparr>trace :=
            [DbGet, DbAggregate, GitCheckoutOrphan ''       2'', GitRmAll]\<rparr>)"
    by (subst checkout_ok[OF 1]) (simp_all add: ok_env_def render_defs)
  have 4: "checkout ok_env cfg_example False False 1 second_branch_example
       = (Inr \<lparr>bbranch = 2, bsize = 0\<rparr>, second_branch_example\<lparr>trace :=
            [DbGet, DbAggregate, GitCheckoutOrphan ''       2'', GitRmAll]\<rparr>)"
    by (subst checkout_ok[OF 2]) (simp_all add: ok_env_def render_defs)
  have 5: "selectBranchSpec (maxBranchSize cfg_example) False 1 (db two_branches_example)
       = \<lparr>bbranch = 3, bsize = 0\<rparr>"
    by (simp add: selectBranchSpec_def cfg_example_def two_branches_example_def init_def)
  have 6: "selectBranchSpec (maxBranchSize cfg_example) False 1 (db second_branch_example)
       = \<lparr>bbranch = 2, bsize = 5\<rparr>"
    by (simp add: selectBranchSpec_def cfg_example_def second_branch_example_def init_def)
  have 7: "db two_branches_example =
     [\<lparr>hash = ''x'', name = ''x.png'', size' = 25, branch = 1\<rparr>,
      \<lparr>hash = ''y'', name = ''y.png'', size' = 25, branch = 2\<rparr>]"
    by (simp add: two_branches_example_def init_def)
  have 8: "db second_branch_example =
     [\<lparr>hash = ''x'', name = ''x.png'', size' = 25, branch = 1\<rparr>,
      \<lparr>hash = ''y'', name = ''y.png'', size' = 5, branch = 2\<rparr>]"
    by (simp add: second_branch_example_def init_def)
  have 9: "maxBranchSize cfg_example = 25"
    by (simp add: cfg_example_def)
  from 1 2 3 4 5 6 7 8 9 show ?thesis by blast
qed

subsection \<open>The main loop on an empty store\<close>

lemma getTasks_splits_queue:
  assumes "getTasks available s = (tasks, s')"
  shows "s' = s\<lparr>taskQueue := drop (length tasks) (taskQueue s)\<rparr>"
    and "taskQueue s = tasks @ taskQueue s'"
proof -
  obtain ts rest where l: "getTasks_loop available (heap s) 0 (taskQueue s) [] = (ts, rest)"
    by (cases "getTasks_loop available (heap s) 0 (taskQueue s) []")
  with assms have eq: "tasks = ts" "s' = s\<lparr>taskQueue := rest\<rparr>"
    by (simp_all add: getTasks_def)
  from getTasks_loop_prefix[OF l] have q: "taskQueue s = ts @ rest"
    by auto
  with eq show "s' = s\<lparr>taskQueue := drop (length tasks) (taskQueue s)\<rparr>"
    and "taskQueue s = tasks @ taskQueue s'"
    by simp_all
qed

lemma getTasks_nothing:
  "fst (getTasks available s) = [] \<Longrightarrow> getTasks available s = ([], s)"
  using getTasks_splits_queue(1)[of available s "[]" "snd (getTasks available s)"]
  by (cases "getTasks available s") simp

lemma getTasks_trace:
  "getTasks available (s\<lparr>trace := t\<rparr>) =
     (case getTasks available s of (tasks, s') \<Rightarrow> (tasks, s'\<lparr>trace := t\<rparr>))"
  by (simp add: getTasks_def split: prod.splits)

text \<open>
  Claim C10: on an empty store \<open>getBranch\<close> answers \<open>{branch: offset, size: 0}\<close> whether
  \<open>forceNew\<close> is set or not.  So when the store is empty and the first drain of \<open>mainLoop\<close>
  pops nothing, the forced checkout creates the orphan branch of the same id 1 as the first
  checkout, and the iteration ends with the queue as it was.
\<close>

theorem getBranch_empty_store_ignores_forceNew:
  assumes "db s = []"
  shows "getBranch ev cfg True offset s = getBranch ev cfg False offset s
     \<and> (fails ev DbGet = None \<longrightarrow>
          getBranch ev cfg forceNew offset s = (Inr \<lparr>bbranch = offset, bsize = 0\<rparr>, emit DbGet s))
     \<and> (taskQueue s \<noteq> [] \<and> (\<forall>op. fails ev op = None)
          \<and> fst (getTasks (maxBranchSize cfg) s) = [] \<longrightarrow>
          mainLoop ev cfg s = (Inr (), s\<lparr>trace := trace s @
            [DbGet, GitCheckoutOrphan (toBranchName 1), GitRmAll,
             DbGet, GitCheckoutOrphan (toBranchName 1), GitRmAll]\<rparr>))"
proof (intro conjI impI)
  show "getBranch ev cfg True offset s = getBranch ev cfg False offset s"
    using assms by (simp add: getBranch_empty)
  show "getBranch ev cfg forceNew offset s = (Inr \<lparr>bbranch = offset, bsize = 0\<rparr>, emit DbGet s)"
    if "fails ev DbGet = None"
    using assms that by (simp add: getBranch_empty)
  assume a: "taskQueue s \<noteq> [] \<and> (\<forall>op. fails ev op = None)
          \<and> fst (getTasks (maxBranchSize cfg) s) = []"
  define ops1 where "ops1 = [DbGet, GitCheckoutOrphan (toBranchName 1), GitRmAll]"
  define s1 where "s1 = s\<lparr>trace := trace s @ ops1\<rparr>"
  define s2 where "s2 = s1\<lparr>trace := trace s1 @ ops1\<rparr>"
  have c1: "checkout ev cfg forceNew False 1 s = (Inr \<lparr>bbranch = 1, bsize = 0\<rparr>, s1)" for forceNew
    using assms a by (simp add: checkout_def getBranch_empty io_defs s1_def ops1_def)
  have c2: "checkout ev cfg forceNew False 1 s1 = (Inr \<lparr>bbranch = 1, bsize = 0\<rparr>, s2)" for forceNew
    using assms a by (simp add: checkout_def getBranch_empty io_defs s1_def s2_def ops1_def)
  have g0: "getTasks (maxBranchSize cfg) s = ([], s)"
    using a by (simp add: getTasks_nothing)
  have g1: "getTasks (maxBranchSize cfg) s1 = ([], s1)"
    using g0 by (simp add: s1_def getTasks_trace)
  have g2: "getTasks (maxBranchSize cfg) s2 = ([], s2)"
    using g0 by (simp add: s1_def s2_def getTasks_trace)
  have q: "taskQueue s \<noteq> []" using a by simp
  have "mainLoop ev cfg s = (Inr (), s2)"
    using q by (simp add: mainLoop_def then_io_def succeed_def c1 g1 c2 g2)
  then show "mainLoop ev cfg s = (Inr (), s\<lparr>trace := trace s @
            [DbGet, GitCheckoutOrphan (toBranchName 1), GitRmAll,
             DbGet, GitCheckoutOrphan (toBranchName 1), GitRmAll]\<rparr>)"
    by (simp add: s2_def s1_def ops1_def)
qed

theorem getBranch_empty_store_ignores_forceNew_witness:
  "db oversized_example = []
   \<and> getBranch ok_env cfg_example True 1 oversized_example
       = (Inr \<lparr>bbranch = 1, bsize = 0\<rparr>, emit DbGet oversized_example)
   \<and> getBranch ok_env cfg_example False 1 oversized_example
       = (Inr \<lparr>bbranch = 1, bsize = 0\<rparr>, emit DbGet oversized_example)
   \<and> mainLoop ok_env cfg_example oversized_example = (Inr (), oversized_example\<lparr>trace :=
       [DbGet, GitCheckoutOrphan ''       1'', GitRmAll,
        DbGet, GitCheckoutOrphan ''       1'', GitRmAll]\<rparr>)"
proof -
  have d: "db oversized_example = []"
    by (simp add: oversized_example_def init_def)
  have f: "fails ok_env DbGet = None" "\<forall>op. fails ok_env op = None"
    by (simp_all add: ok_env_def)
  have q: "taskQueue oversized_example \<noteq> []" "trace oversized_example = []"
    by (simp_all add: oversized_example_def init_def)
  have g: "fst (getTasks (maxBranchSize cfg_example) oversized_example) = []"
    by (simp add: getTasks_def oversized_example_def init_def cfg_example_def newTask_def)
  have n: "toBranchName 1 = ''       1''"
    by (simp add: render_defs)
  note t = getBranch_empty_store_ignores_forceNew[OF d, of ok_env cfg_example 1]
  from t[of True] f(1) have 1: "getBranch ok_env cfg_example True 1 oversized_example
       = (Inr \<lparr>bbranch = 1, bsize = 0\<rparr>, emit DbGet oversized_example)"
    by blast
  from t[of False] f(1) have 2: "getBranch ok_env cfg_example False 1 oversized_example
       = (Inr \<lparr>bbranch = 1, bsize = 0\<rparr>, emit DbGet oversized_example)"
    by blast
  from t[of True] f(2) q(1) g have "mainLoop ok_env cfg_example oversized_example
     = (Inr (), oversized_example\<lparr>trace := trace oversized_example @
            [DbGet, GitCheckoutOrphan (toBranchName 1), GitRmAll,
             DbGet, GitCheckoutOrphan (toBranchName 1), GitRmAll]\<rparr>)"
    by blast
  then have 3: "mainLoop ok_env cfg_example oversized_example = (Inr (), oversized_example\<lparr>trace :=
       [DbGet, GitCheckoutOrphan ''       1'', GitRmAll,
        DbGet, GitCheckoutOrphan ''       1'', GitRmAll]\<rparr>)"
    by (simp add: n q(2))
  from d 1 2 3 show ?thesis by blast
qed

subsection \<open>Uploading content that is already stored\<close>

text \<open>
  \<open>upload\<close> looks the digest up with \<open>get\<close> and no modifier, so the lookup throws once the
  store has answered: whatever the input and the state, \<open>upload\<close> throws, and what it has
  done by then is at most the HTTP fetch of a remote source and the read of the store.
\<close>

lemma upload_throws:
  "\<exists>e ops. upload ev cfg url name_opt s = (Inl e, s\<lparr>trace := trace s @ ops\<rparr>)
     \<and> set ops \<subseteq> {HttpGet url, DbGet}"
proof -
  define pre where "pre = (if take (length PTC_BASE64) url = PTC_BASE64 then [] else [HttpGet url])"
  consider (http) e where "take (length PTC_BASE64) url \<noteq> PTC_BASE64" "fails ev (HttpGet url) = Some e"
    | (store) e where "take (length PTC_BASE64) url = PTC_BASE64 \<or> fails ev (HttpGet url) = None"
        "fails ev DbGet = Some e"
    | (lookup) "take (length PTC_BASE64) url = PTC_BASE64 \<or> fails ev (HttpGet url) = None"
        "fails ev DbGet = None"
    by (cases "fails ev (HttpGet url)"; cases "fails ev DbGet") auto
  then show ?thesis
  proof cases
    case http
    then have "upload ev cfg url name_opt s = (Inl e, s)"
      by (simp add: upload_def getAssetBuffer_def io_defs Let_def)
    then show ?thesis
      by (intro exI[of _ e] exI[of _ "[]"]) simp
  next
    case store
    then have "upload ev cfg url name_opt s = (Inl e, s\<lparr>trace := trace s @ pre\<rparr>)"
      by (auto simp add: upload_def getAssetBuffer_def database_get_def resolveModifier_def
        io_defs Let_def pre_def)
    then show ?thesis
      by (intro exI[of _ e] exI[of _ pre]) (simp add: pre_def)
  next
    case lookup
    then have "upload ev cfg url name_opt s =
        (Inl (Error ''TypeError'' ''Cannot read properties of undefined''),
         s\<lparr>trace := trace s @ pre @ [DbGet]\<rparr>)"
      by (auto simp add: upload_def getAssetBuffer_def database_get_def resolveModifier_def
        io_defs Let_def pre_def)
    then show ?thesis
      by (intro exI[of _ "Error ''TypeError'' ''Cannot read properties of undefined''"]
          exI[of _ "pre @ [DbGet]"]) (simp add: pre_def)
  qed
qed

text \<open>
  Claim C7: on a dedup hit \<open>upload\<close> is to return the public URL of the record.  The store
  holds the record \<open>{hash: "x", name: "x.png", size: 15, branch: 3}\<close> and the bytes uploaded
  have the digest \<open>x\<close>; no collaborator fails.  The lookup \<open>get('jsdelivr', {hash})\<close> is made
  without a modifier, its \<open>fields\<close> is undefined and \<open>fields.includes\<close> throws after the
  read: \<open>upload\<close> throws this \<open>TypeError\<close> where the claim has the URL of the record.  No
  Task is created and nothing is queued or written.
\<close>

theorem upload_dedup_hit_throws:
  "filter (\<lambda>f. hash f = sha1_hex ok_env (base64_decode ok_env ''x'')) (db full_branch_example)
     = [\<lparr>hash = ''x'', name = ''x.png'', size' = 15, branch = 3\<rparr>]
   \<and> upload ok_env cfg_example ''base64://x'' None full_branch_example
     = (Inl (Error ''TypeError'' ''Cannot read properties of undefined''),
        full_branch_example\<lparr>trace := [DbGet]\<rparr>)
   \<and> fst (upload ok_env cfg_example ''base64://x'' None full_branch_example)
     \<noteq> Inr (Url (toPublicUrl cfg_example \<lparr>hash = ''x'', name = ''x.png'', size' = 15, branch = 3\<rparr>))"
proof -
  have hit: "filter (\<lambda>f. hash f = sha1_hex ok_env (base64_decode ok_env ''x'')) (db full_branch_example)
      = [\<lparr>hash = ''x'', name = ''x.png'', size' = 15, branch = 3\<rparr>]"
    by (simp add: ok_env_def full_branch_example_def init_def)
  have up: "upload ok_env cfg_example ''base64://x'' None full_branch_example
     = (Inl (Error ''TypeError'' ''Cannot read properties of undefined''),
        full_branch_example\<lparr>trace := [DbGet]\<rparr>)"
    by (simp add: upload_def getAssetBuffer_def database_get_def resolveModifier_def io_defs
      Let_def PTC_BASE64_def ok_env_def full_branch_example_def init_def)
  from hit up show ?thesis by simp
qed

subsection \<open>Operations that only extend the trace\<close>

lemma tracedI: "(\<And>s. \<exists>ops. snd (m s) = s\<lparr>trace := trace s @ ops\<rparr>) \<Longrightarrow> traced m"
  by (simp add: traced_def)

lemma tracedD: "traced m \<Longrightarrow> m s = (r, s') \<Longrightarrow> \<exists>ops. s' = s\<lparr>trace := trace s @ ops\<rparr>"
  unfolding traced_def by (metis snd_conv)

lemma traced_succeed [simp]: "traced (succeed a)"
  by (rule tracedI) (simp add: succeed_def exI[of _ "[]"])

lemma traced_throw [simp]: "traced (throw e)"
  by (rule tracedI) (simp add: throw_def exI[of _ "[]"])

lemma traced_perform [simp]: "traced (perform ev op)"
proof (rule tracedI)
  fix s
  show "\<exists>ops. snd (perform ev op s) = s\<lparr>trace := trace s @ ops\<rparr>"
  proof (cases "fails ev op")
    case None
    then have "snd (perform ev op s) = s\<lparr>trace := trace s @ [op]\<rparr>"
      by (simp add: perform_def emit_def)
    then show ?thesis ..
  next
    case (Some e)
    then have "snd (perform ev op s) = s\<lparr>trace := trace s @ []\<rparr>"
      by (simp add: perform_def)
    then show ?thesis ..
  qed
qed

lemma traced_then_io [intro]:
  assumes m: "traced m" and f: "\<And>a. traced (f a)"
  shows "traced (then_io m f)"
proof (rule tracedI)
  fix s
  obtain r s1 where ms: "m s = (r, s1)" by (cases "m s")
  from tracedD[OF m ms] obtain ops where s1: "s1 = s\<lparr>trace := trace s @ ops\<rparr>" ..
  show "\<exists>ops. snd (then_io m f s) = s\<lparr>trace := trace s @ ops\<rparr>"
  proof (cases r)
    case (Inl e)
    with ms s1 show ?thesis by (auto simp add: then_io_def)
  next
    case (Inr a)
    obtain r2 s2 where fs: "f a s1 = (r2, s2)" by (cases "f a s1")
    from tracedD[OF f fs] obtain ops2 where "s2 = s1\<lparr>trace := trace s1 @ ops2\<rparr>" ..
    with s1 have "s2 = s\<lparr>trace := trace s @ (ops @ ops2)\<rparr>" by simp
    with Inr ms fs show ?thesis by (auto simp add: then_io_def)
  qed
qed

lemma traced_pure [simp]: "traced (\<lambda>s. (g s, s))"
  by (rule tracedI) (simp add: exI[of _ "[]"])

lemma traced_if [intro]: "traced m \<Longrightarrow> traced m' \<Longrightarrow> traced (if c then m else m')"
  by simp

lemma traced_database_get [simp]: "traced (database_get ev query modifier)"
  unfolding database_get_def Let_def
  by (cases "opt_fields (resolveModifier modifier)"; intro traced_then_io) simp_all

lemma traced_database_aggregate_size [simp]: "traced (database_aggregate_size ev query)"
  unfolding database_aggregate_size_def by (rule traced_then_io) simp_all

lemma traced_getBranch [simp]: "traced (getBranch ev cfg forceNew offset)"
  unfolding getBranch_def
  by (rule traced_then_io) (auto split: list.splits)

lemma traced_checkout [simp]: "traced (checkout ev cfg forceNew fetch offset)"
  unfolding checkout_def Let_def
  by (intro traced_then_io traced_if) simp_all

lemma traced_getAssetBuffer [simp]: "traced (getAssetBuffer ev url)"
  unfolding getAssetBuffer_def by (intro traced_then_io traced_if) simp_all

lemma traced_getFileName [simp]: "traced (getFileName ev buffer)"
  unfolding getFileName_def by (rule traced_then_io) (auto split: option.splits)

subsection \<open>The effect of \<open>createTask\<close>\<close>

lemma update_fresh_key:
  "k \<notin> fst ` set al \<Longrightarrow> AList.update k v al = al @ [(k, v)]"
  by (induction al) auto

lemma map_of_index:
  assumes "distinct (map f rs)"
  shows "map_of (map (\<lambda>r. (f r, r)) rs) k = Some r \<longleftrightarrow> r \<in> set rs \<and> f r = k"
  using assms
proof (induction rs)
  case Nil
  then show ?case by simp
next
  case (Cons a rs)
  then show ?case by (auto simp add: image_iff)
qed

lemma map_of_index_None:
  "map_of (map (\<lambda>r. (f r, r)) rs) k = None \<longleftrightarrow> k \<notin> f ` set rs"
  by (induction rs) auto

lemma createTask_existing:
  assumes "map_of (taskMap s) (hash file) = Some r"
  shows "createTask file s =
    (length (promises s),
     s\<lparr>promises := promises s @ [Pending],
       heap := (heap s)[r := (heap s ! r)\<lparr>resolvers := resolvers (heap s ! r) @ [length (promises s)],
                                         rejectors := rejectors (heap s ! r) @ [length (promises s)]\<rparr>]\<rparr>)"
  using assms by (simp add: createTask_def Let_def)

lemma createTask_new:
  assumes "map_of (taskMap s) (hash file) = None"
  shows "createTask file s =
    (length (promises s),
     s\<lparr>promises := promises s @ [Pending],
       heap := heap s @ [(newTask file)\<lparr>resolvers := [length (promises s)],
                                        rejectors := [length (promises s)]\<rparr>],
       taskQueue := taskQueue s @ [length (heap s)],
       taskMap := AList.update (hash file) (length (heap s)) (taskMap s)\<rparr>)"
  using assms by (simp add: createTask_def Let_def newTask_def)

lemma queue_inv_trace [simp]: "queue_inv (s\<lparr>trace := t\<rparr>) = queue_inv s"
  by (simp add: queue_inv_def batch_ok_def)

lemma queue_inv_isActive [simp]: "queue_inv (s\<lparr>isActive := b\<rparr>) = queue_inv s"
  by (simp add: queue_inv_def batch_ok_def)

lemma createTask_trace:
  "createTask file (s\<lparr>trace := t\<rparr>) =
     (fst (createTask file s), (snd (createTask file s))\<lparr>trace := t\<rparr>)"
  by (simp add: createTask_def Let_def split: option.splits)

lemma queue_inv_createTask_existing:
  assumes i: "queue_inv s" and m: "map_of (taskMap s) (hash file) = Some r"
  shows "queue_inv (snd (createTask file s))"
proof -
  define p where "p = length (promises s)"
  define t where "t = (heap s ! r)\<lparr>resolvers := resolvers (heap s ! r) @ [p],
                                   rejectors := rejectors (heap s ! r) @ [p]\<rparr>"
  define s' where "s' = s\<lparr>promises := promises s @ [Pending], heap := (heap s)[r := t]\<rparr>"
  have s': "snd (createTask file s) = s'"
    using m by (simp add: createTask_existing s'_def t_def p_def)
  from i have b: "batch_ok s (taskQueue s)"
    and tm: "taskMap s = map (\<lambda>r. (hash (heap s ! r), r)) (taskQueue s)"
    and dh: "distinct (map (\<lambda>r. hash (heap s ! r)) (taskQueue s))"
    by (simp_all add: queue_inv_def)
  from m dh have rq: "r \<in> set (taskQueue s)"
    unfolding tm by (simp add: map_of_index)
  have hash': "hash (heap s' ! x) = hash (heap s ! x)" if "x < length (heap s)" for x
    using that by (cases "x = r") (simp_all add: s'_def t_def)
  have res': "resolvers (heap s' ! x) = (if x = r then resolvers (heap s ! r) @ [p] else resolvers (heap s ! x))"
    if "x < length (heap s)" for x
    using that by (simp add: s'_def t_def)
  have rej': "rejectors (heap s' ! x) = (if x = r then rejectors (heap s ! r) @ [p] else rejectors (heap s ! x))"
    if "x < length (heap s)" for x
    using that by (simp add: s'_def t_def)
  have q': "taskQueue s' = taskQueue s" "taskMap s' = taskMap s" "length (heap s') = length (heap s)"
    "promises s' = promises s @ [Pending]"
    by (simp_all add: s'_def)
  from b have lt: "\<forall>x\<in>set (taskQueue s). x < length (heap s)"
    by (simp add: batch_ok_def)
  from b have pend: "\<forall>x\<in>set (taskQueue s). \<forall>w\<in>set (resolvers (heap s ! x)). w < p \<and> promises s ! w = Pending"
    by (simp add: batch_ok_def p_def)
  then have fresh: "\<forall>x\<in>set (taskQueue s). p \<notin> set (resolvers (heap s ! x))"
    by auto
  have bk: "batch_ok s' (taskQueue s')"
    unfolding batch_ok_def q'
  proof (intro conjI ballI impI)
    show "distinct (taskQueue s)" using b by (simp add: batch_ok_def)
  next
    fix x assume "x \<in> set (taskQueue s)"
    with lt show "x < length (heap s)" by simp
  next
    fix x assume x: "x \<in> set (taskQueue s)"
    with b have "rejectors (heap s ! x) = resolvers (heap s ! x)" by (simp add: batch_ok_def)
    with x lt show "rejectors (heap s' ! x) = resolvers (heap s' ! x)"
      by (auto simp add: res' rej')
  next
    fix x assume x: "x \<in> set (taskQueue s)"
    with b have "distinct (resolvers (heap s ! x))" by (simp add: batch_ok_def)
    with x lt fresh show "distinct (resolvers (heap s' ! x))"
      by (auto simp add: res')
  next
    fix x w assume x: "x \<in> set (taskQueue s)" and w: "w \<in> set (resolvers (heap s' ! x))"
    with lt res' have "w = p \<or> w \<in> set (resolvers (heap s ! x))"
      by (auto split: if_splits)
    with pend x have "w = p \<or> (w < p \<and> promises s ! w = Pending)"
      by blast
    then show "w < length (promises s @ [Pending])"
      by (auto simp add: p_def)
  next
    fix x w assume x: "x \<in> set (taskQueue s)" and w: "w \<in> set (resolvers (heap s' ! x))"
    with lt res' have "w = p \<or> w \<in> set (resolvers (heap s ! x))"
      by (auto split: if_splits)
    with pend x have "w = p \<or> (w < p \<and> promises s ! w = Pending)"
      by blast
    then show "(promises s @ [Pending]) ! w = Pending"
      by (auto simp add: p_def nth_append)
  next
    fix x y assume x: "x \<in> set (taskQueue s)" and y: "y \<in> set (taskQueue s)" and ne: "x \<noteq> y"
    with b have "set (resolvers (heap s ! x)) \<inter> set (resolvers (heap s ! y)) = {}"
      by (simp add: batch_ok_def)
    with x y ne lt fresh show "set (resolvers (heap s' ! x)) \<inter> set (resolvers (heap s' ! y)) = {}"
      by (auto simp add: res')
  qed
  then have bk': "batch_ok s' (taskQueue s)"
    by (simp add: q')
  have h1: "map (\<lambda>r. hash (heap s' ! r)) (taskQueue s) = map (\<lambda>r. hash (heap s ! r)) (taskQueue s)"
    using lt by (simp add: hash')
  have h2: "map (\<lambda>r. (hash (heap s' ! r), r)) (taskQueue s) = map (\<lambda>r. (hash (heap s ! r), r)) (taskQueue s)"
    using lt by (simp add: hash')
  have "queue_inv s'"
    unfolding queue_inv_def q' h1 h2 using bk' tm dh by blast
  with s' show ?thesis by simp
qed

lemma queue_inv_createTask_new:
  assumes i: "queue_inv s" and m: "map_of (taskMap s) (hash file) = None"
  shows "queue_inv (snd (createTask file s))"
proof -
  define p where "p = length (promises s)"
  define n where "n = length (heap s)"
  define t where "t = (newTask file)\<lparr>resolvers := [p], rejectors := [p]\<rparr>"
  define s' where "s' = s\<lparr>promises := promises s @ [Pending], heap := heap s @ [t],
     taskQueue := taskQueue s @ [n], taskMap := AList.update (hash file) n (taskMap s)\<rparr>"
  have s': "snd (createTask file s) = s'"
    using m by (simp add: createTask_new s'_def t_def p_def n_def)
  from i have b: "batch_ok s (taskQueue s)"
    and tm: "taskMap s = map (\<lambda>r. (hash (heap s ! r), r)) (taskQueue s)"
    and dh: "distinct (map (\<lambda>r. hash (heap s ! r)) (taskQueue s))"
    by (simp_all add: queue_inv_def)
  from b have lt: "\<forall>x\<in>set (taskQueue s). x < n"
    by (simp add: batch_ok_def n_def)
  then have nq: "n \<notin> set (taskQueue s)" by auto
  from m have hfresh: "hash file \<notin> (\<lambda>r. hash (heap s ! r)) ` set (taskQueue s)"
    unfolding tm by (simp add: map_of_index_None)
  then have "hash file \<notin> fst ` set (taskMap s)"
    unfolding tm by (simp add: image_image)
  then have tm': "taskMap s' = taskMap s @ [(hash file, n)]"
    by (simp add: s'_def update_fresh_key)
  have old: "heap s' ! x = heap s ! x" if "x \<in> set (taskQueue s)" for x
    using that lt by (simp add: s'_def nth_append n_def)
  have new: "heap s' ! n = t"
    by (simp add: s'_def n_def)
  have ht: "hash t = hash file" "resolvers t = [p]" "rejectors t = [p]"
    by (simp_all add: t_def newTask_def)
  have q': "taskQueue s' = taskQueue s @ [n]" "length (heap s') = Suc n"
    "promises s' = promises s @ [Pending]"
    by (simp_all add: s'_def n_def)
  from b have pend: "\<forall>x\<in>set (taskQueue s). \<forall>w\<in>set (resolvers (heap s ! x)). w < p \<and> promises s ! w = Pending"
    by (simp add: batch_ok_def p_def)
  then have fresh: "\<forall>x\<in>set (taskQueue s). p \<notin> set (resolvers (heap s ! x))"
    by auto
  have bk: "batch_ok s' (taskQueue s @ [n])"
    unfolding batch_ok_def q'
  proof (intro conjI ballI impI)
    show "distinct (taskQueue s @ [n])" using b nq by (simp add: batch_ok_def)
  next
    fix x assume "x \<in> set (taskQueue s @ [n])"
    with lt show "x < Suc n" by auto
  next
    fix x assume x: "x \<in> set (taskQueue s @ [n])"
    show "rejectors (heap s' ! x) = resolvers (heap s' ! x)"
    proof (cases "x = n")
      case True
      then show ?thesis by (simp add: new ht)
    next
      case False
      with x have "x \<in> set (taskQueue s)" by simp
      with b show ?thesis by (simp add: old batch_ok_def)
    qed
  next
    fix x assume x: "x \<in> set (taskQueue s @ [n])"
    show "distinct (resolvers (heap s' ! x))"
    proof (cases "x = n")
      case True
      then show ?thesis by (simp add: new ht)
    next
      case False
      with x have "x \<in> set (taskQueue s)" by simp
      with b show ?thesis by (simp add: old batch_ok_def)
    qed
  next
    fix x w assume x: "x \<in> set (taskQueue s @ [n])" and w: "w \<in> set (resolvers (heap s' ! x))"
    have "w = p \<or> (w < p \<and> promises s ! w = Pending)"
    proof (cases "x = n")
      case True
      with w show ?thesis by (simp add: new ht)
    next
      case False
      with x have "x \<in> set (taskQueue s)" by simp
      with w pend show ?thesis by (simp add: old)
    qed
    then show "w < length (promises s @ [Pending])"
      by (auto simp add: p_def)
  next
    fix x w assume x: "x \<in> set (taskQueue s @ [n])" and w: "w \<in> set (resolvers (heap s' ! x))"
    have "w = p \<or> (w < p \<and> promises s ! w = Pending)"
    proof (cases "x = n")
      case True
      with w show ?thesis by (simp add: new ht)
    next
      case False
      with x have "x \<in> set (taskQueue s)" by simp
      with w pend show ?thesis by (simp add: old)
    qed
    then show "(promises s @ [Pending]) ! w = Pending"
      by (auto simp add: p_def nth_append)
  next
    fix x y assume x: "x \<in> set (taskQueue s @ [n])" and y: "y \<in> set (taskQueue s @ [n])"
      and ne: "x \<noteq> y"
    have rs: "resolvers (heap s' ! z) = (if z = n then [p] else resolvers (heap s ! z))"
      if "z \<in> set (taskQueue s @ [n])" for z
      using that by (auto simp add: new ht old)
    have "set (resolvers (heap s ! x)) \<inter> set (resolvers (heap s ! y)) = {}"
      if "x \<in> set (taskQueue s)" "y \<in> set (taskQueue s)"
      using that b ne by (simp add: batch_ok_def)
    with x y ne fresh show "set (resolvers (heap s' ! x)) \<inter> set (resolvers (heap s' ! y)) = {}"
      by (auto simp add: rs)
  qed
  have h1: "map (\<lambda>r. hash (heap s' ! r)) (taskQueue s @ [n])
      = map (\<lambda>r. hash (heap s ! r)) (taskQueue s) @ [hash file]"
    by (simp add: old new ht)
  have h2: "map (\<lambda>r. (hash (heap s' ! r), r)) (taskQueue s @ [n])
      = map (\<lambda>r. (hash (heap s ! r), r)) (taskQueue s) @ [(hash file, n)]"
    by (simp add: old new ht)
  have d': "distinct (map (\<lambda>r. hash (heap s ! r)) (taskQueue s) @ [hash file])"
    using dh hfresh by simp
  have "queue_inv s'"
    unfolding queue_inv_def q' h1 h2 tm' using bk tm d' by simp
  with s' show ?thesis by simp
qed

lemma queue_inv_createTask: "queue_inv s \<Longrightarrow> queue_inv (snd (createTask file s))"
  by (cases "map_of (taskMap s) (hash file)")
    (simp_all add: queue_inv_createTask_new queue_inv_createTask_existing)

subsection \<open>Settling promises\<close>

lemma settle_length [simp]: "length (settle v p ps) = length ps"
  by (simp add: settle_def)

lemma settle_nth:
  "settle v p ps ! q = (if q = p \<and> p < length ps \<and> ps ! p = Pending then v else ps ! q)"
  by (simp add: settle_def nth_list_update)

lemma fold_settle_length [simp]: "length (fold (settle v) ws ps) = length ps"
  by (induction ws arbitrary: ps) simp_all

lemma fold_settle_nth:
  "v \<noteq> Pending \<Longrightarrow> fold (settle v) ws ps ! q =
     (if q \<in> set ws \<and> q < length ps \<and> ps ! q = Pending then v else ps ! q)"
proof (induction ws arbitrary: ps)
  case Nil
  then show ?case by simp
next
  case (Cons w ws)
  then show ?case by (auto simp add: settle_nth)
qed

lemma settleAll_length [simp]: "length (settleAll v W tasks ps) = length ps"
  unfolding settleAll_def by (induction tasks arbitrary: ps) simp_all

lemma settleAll_Cons:
  "settleAll v W (r # tasks) ps = settleAll v W tasks (fold (settle (v r)) (W r) ps)"
  by (simp add: settleAll_def)

lemma settleAll_other:
  assumes "\<forall>r\<in>set tasks. v r \<noteq> Pending" and "\<forall>r\<in>set tasks. q \<notin> set (W r)"
  shows "settleAll v W tasks ps ! q = ps ! q"
  using assms
proof (induction tasks arbitrary: ps)
  case Nil
  then show ?case by (simp add: settleAll_def)
next
  case (Cons r tasks)
  then show ?case by (simp add: settleAll_Cons fold_settle_nth)
qed


subsection \<open>Processing a batch\<close>

lemma assignAll_length [simp]: "length (assignAll b tasks hp) = length hp"
  unfolding assignAll_def by (induction tasks arbitrary: hp) simp_all

lemma assignAll_Cons:
  "assignAll b (r # tasks) hp = assignAll b tasks (hp[r := (hp ! r)\<lparr>branch_opt := Some b\<rparr>])"
  by (simp add: assignAll_def)

lemma assignAll_fields:
  "hash (assignAll b tasks hp ! x) = hash (hp ! x)
   \<and> name (assignAll b tasks hp ! x) = name (hp ! x)
   \<and> size' (assignAll b tasks hp ! x) = size' (hp ! x)
   \<and> resolvers (assignAll b tasks hp ! x) = resolvers (hp ! x)
   \<and> rejectors (assignAll b tasks hp ! x) = rejectors (hp ! x)"
proof (induction tasks arbitrary: hp)
  case Nil
  then show ?case by (simp add: assignAll_def)
next
  case (Cons r tasks)
  define hp1 where "hp1 = hp[r := (hp ! r)\<lparr>branch_opt := Some b\<rparr>]"
  have "hash (hp1 ! x) = hash (hp ! x) \<and> name (hp1 ! x) = name (hp ! x)
    \<and> size' (hp1 ! x) = size' (hp ! x) \<and> resolvers (hp1 ! x) = resolvers (hp ! x)
    \<and> rejectors (hp1 ! x) = rejectors (hp ! x)"
  proof (cases "x = r \<and> r < length hp")
    case True
    then show ?thesis by (simp add: hp1_def)
  next
    case False
    then have "hp1 ! x = hp ! x"
      by (cases "x = r") (simp_all add: hp1_def list_update_beyond)
    then show ?thesis by simp
  qed
  with Cons.IH[of hp1] show ?case
    by (simp add: assignAll_Cons hp1_def)
qed

lemma assignAll_branch:
  "r \<in> set tasks \<Longrightarrow> r < length hp \<Longrightarrow> branch_opt (assignAll b tasks hp ! r) = Some b"
proof (induction tasks arbitrary: hp)
  case Nil
  then show ?case by simp
next
  case (Cons a tasks)
  show ?case
  proof (cases "r \<in> set tasks")
    case True
    with Cons show ?thesis by (simp add: assignAll_Cons)
  next
    case False
    with Cons.prems have ra: "r = a" by simp
    have keep: "x \<notin> set ts \<Longrightarrow> assignAll b ts h ! x = h ! x" for ts h x
      unfolding assignAll_def by (induction ts arbitrary: h) simp_all
    from False Cons.prems(2) ra show ?thesis
      by (simp add: assignAll_Cons keep)
  qed
qed

lemma fold_assignBranch:
  "fold (assignBranch b) tasks s = s\<lparr>heap := assignAll b tasks (heap s)\<rparr>"
proof (induction tasks arbitrary: s)
  case Nil
  then show ?case by (simp add: assignAll_def)
next
  case (Cons r tasks)
  then show ?case by (simp add: assignAll_Cons assignBranch_def)
qed

lemma fold_Task_reject:
  "fold (Task_reject e) tasks s =
     s\<lparr>promises := settleAll (\<lambda>_. Rejected e) (\<lambda>r. rejectors (heap s ! r)) tasks (promises s)\<rparr>"
proof (induction tasks arbitrary: s)
  case Nil
  then show ?case by (simp add: settleAll_def)
next
  case (Cons r tasks)
  then show ?case by (simp add: settleAll_Cons Task_reject_def Let_def)
qed

lemma fold_Task_resolve:
  assumes "\<forall>r\<in>set tasks. branch_opt (heap s ! r) = Some b"
  shows "fold (Task_resolve cfg) tasks s =
     s\<lparr>promises := settleAll
          (\<lambda>r. Resolved (toPublicUrl cfg \<lparr>hash = hash (heap s ! r), name = name (heap s ! r),
                  size' = size' (heap s ! r), branch = b\<rparr>))
          (\<lambda>r. resolvers (heap s ! r)) tasks (promises s)\<rparr>"
  using assms
proof (induction tasks arbitrary: s)
  case Nil
  then show ?case by (simp add: settleAll_def)
next
  case (Cons r tasks)
  then show ?case by (simp add: settleAll_Cons Task_resolve_def Task_file_def Let_def)
qed

lemma traced_renameAll [simp]: "traced (renameAll ev cfg tasks)"
proof (induction tasks)
  case Nil
  have "renameAll ev cfg [] = (\<lambda>s. (Inr (), s))" by (rule ext) simp
  then show ?case by simp
next
  case (Cons r tasks)
  show ?case
  proof (rule tracedI)
    fix s
    obtain res s1 where p: "perform ev (FsRename (tempPath cfg (heap s ! r)) (savePath cfg (heap s ! r))) s = (res, s1)"
      by (cases "perform ev (FsRename (tempPath cfg (heap s ! r)) (savePath cfg (heap s ! r))) s")
    obtain rest s2 where q: "renameAll ev cfg tasks s1 = (rest, s2)"
      by (cases "renameAll ev cfg tasks s1")
    from tracedD[OF traced_perform p] obtain ops1 where 1: "s1 = s\<lparr>trace := trace s @ ops1\<rparr>" ..
    from tracedD[OF Cons q] obtain ops2 where 2: "s2 = s1\<lparr>trace := trace s1 @ ops2\<rparr>" ..
    from 1 2 have "s2 = s\<lparr>trace := trace s @ (ops1 @ ops2)\<rparr>" by simp
    moreover have "snd (renameAll ev cfg (r # tasks) s) = s2"
      using p q by (simp split: sum.splits)
    ultimately show "\<exists>ops. snd (renameAll ev cfg (r # tasks) s) = s\<lparr>trace := trace s @ ops\<rparr>"
      by blast
  qed
qed


lemma then_io_cases:
  assumes "then_io m f s = (r, s')"
  obtains (fail) e where "m s = (Inl e, s')" "r = Inl e"
        | (ok) a s1 where "m s = (Inr a, s1)" "f a s1 = (r, s')"
proof -
  obtain x s1 where ms: "m s = (x, s1)" by (cases "m s")
  show thesis
  proof (cases x)
    case (Inl e)
    with ms assms have "m s = (Inl e, s')" "r = Inl e"
      by (simp_all add: then_io_def)
    then show thesis by (rule fail)
  next
    case (Inr a)
    with ms assms have "m s = (Inr a, s1)" "f a s1 = (r, s')"
      by (simp_all add: then_io_def)
    then show thesis by (rule ok)
  qed
qed

lemma commitBatch_result:
  assumes c: "commitBatch ev cfg br tasks s = (res, s')"
  shows "\<exists>ops. (case res of
      Inl e \<Rightarrow> s' = s\<lparr>heap := assignAll (bbranch br) tasks (heap s), trace := trace s @ ops\<rparr>
    | Inr _ \<Rightarrow> s' = fold (Task_resolve cfg) tasks
        (s\<lparr>heap := assignAll (bbranch br) tasks (heap s), trace := trace s @ ops,
           db := fold upsert_row
             (List.map_filter (\<lambda>r. Task_file (assignAll (bbranch br) tasks (heap s) ! r)) tasks) (db s)\<rparr>))"
proof -
  define H where "H = assignAll (bbranch br) tasks (heap s)"
  define sA where "sA = s\<lparr>heap := H\<rparr>"
  have shape: "\<exists>ops. x = s\<lparr>heap := H, trace := trace s @ ops\<rparr>"
    if "x = sA\<lparr>trace := trace sA @ o1\<rparr>" for x o1
    using that by (auto simp add: sA_def)
  have ext: "\<exists>ops. y = s\<lparr>heap := H, trace := trace s @ ops\<rparr>"
    if "\<exists>ops. x = s\<lparr>heap := H, trace := trace s @ ops\<rparr>" "y = x\<lparr>trace := trace x @ o2\<rparr>" for x y o2
  proof -
    from that(1) obtain o1 where "x = s\<lparr>heap := H, trace := trace s @ o1\<rparr>" ..
    with that(2) have "y = s\<lparr>heap := H, trace := trace s @ (o1 @ o2)\<rparr>" by simp
    then show ?thesis ..
  qed
  from c show ?thesis
    unfolding commitBatch_def
  proof (cases rule: then_io_cases)
    case (fail e)
    from fail(1) have "renameAll ev cfg tasks sA = (Inl e, s')"
      by (simp add: fold_assignBranch sA_def H_def)
    from tracedD[OF traced_renameAll this] obtain o1 where "s' = sA\<lparr>trace := trace sA @ o1\<rparr>" ..
    from shape[OF this] fail(2) show ?thesis by (simp add: H_def)
  next
    case (ok a s1)
    from ok(1) have "renameAll ev cfg tasks sA = (Inr a, s1)"
      by (simp add: fold_assignBranch sA_def H_def)
    from tracedD[OF traced_renameAll this] obtain o1 where "s1 = sA\<lparr>trace := trace sA @ o1\<rparr>" ..
    from shape[OF this] have 1: "\<exists>ops. s1 = s\<lparr>heap := H, trace := trace s @ ops\<rparr>" .
    from ok(2) show ?thesis
    proof (cases rule: then_io_cases)
      case (fail e)
      from tracedD[OF traced_perform fail(1)] obtain o2 where "s' = s1\<lparr>trace := trace s1 @ o2\<rparr>" ..
      from ext[OF 1 this] fail(2) show ?thesis by (simp add: H_def)
    next
      case (ok a2 s2)
      from tracedD[OF traced_perform ok(1)] obtain o2 where "s2 = s1\<lparr>trace := trace s1 @ o2\<rparr>" ..
      from ext[OF 1 this] have 2: "\<exists>ops. s2 = s\<lparr>heap := H, trace := trace s @ ops\<rparr>" .
      from ok(2) show ?thesis
      proof (cases rule: then_io_cases)
        case (fail e)
        from tracedD[OF traced_perform fail(1)] obtain o3 where "s' = s2\<lparr>trace := trace s2 @ o3\<rparr>" ..
        from ext[OF 2 this] fail(2) show ?thesis by (simp add: H_def)
      next
        case (ok a3 s3)
        from tracedD[OF traced_perform ok(1)] obtain o3 where "s3 = s2\<lparr>trace := trace s2 @ o3\<rparr>" ..
        from ext[OF 2 this] have 3: "\<exists>ops. s3 = s\<lparr>heap := H, trace := trace s @ ops\<rparr>" .
        from ok(2) show ?thesis
        proof (cases rule: then_io_cases)
          case (fail e)
          from tracedD[OF traced_perform fail(1)] obtain o4 where "s' = s3\<lparr>trace := trace s3 @ o4\<rparr>" ..
          from ext[OF 3 this] fail(2) show ?thesis by (simp add: H_def)
        next
          case (ok a4 s4)
          from tracedD[OF traced_perform ok(1)] obtain o4 where "s4 = s3\<lparr>trace := trace s3 @ o4\<rparr>" ..
          from ext[OF 3 this] obtain o4' where 4: "s4 = s\<lparr>heap := H, trace := trace s @ o4'\<rparr>" ..
          from ok(2) show ?thesis
          proof (cases rule: then_io_cases)
            case (fail e)
            from fail(1) show ?thesis
              unfolding database_upsert_def
            proof (cases rule: then_io_cases)
              case (fail e')
              from tracedD[OF traced_perform fail(1)] obtain o5 where "s' = s4\<lparr>trace := trace s4 @ o5\<rparr>" ..
              with 4 have "s' = s\<lparr>heap := H, trace := trace s @ (o4' @ o5)\<rparr>" by simp
              with \<open>res = Inl e\<close> show ?thesis by (auto simp add: H_def)
            next
              case (ok a5 s5)
              then show ?thesis by simp
            qed
          next
            case (ok a5 s5)
            from ok(1) have "\<exists>ops. s5 = s\<lparr>heap := H, trace := trace s @ ops,
                db := fold upsert_row (List.map_filter (\<lambda>r. Task_file (H ! r)) tasks) (db s)\<rparr>"
              unfolding database_upsert_def
            proof (cases rule: then_io_cases)
              case (fail e')
              then show ?thesis by simp
            next
              case (ok a6 s6)
              from tracedD[OF traced_perform ok(1)] obtain o5 where "s6 = s4\<lparr>trace := trace s4 @ o5\<rparr>" ..
              with 4 have "s6 = s\<lparr>heap := H, trace := trace s @ (o4' @ o5)\<rparr>" by simp
              with ok(2) 4 have "s5 = s\<lparr>heap := H, trace := trace s @ (o4' @ o5),
                db := fold upsert_row (List.map_filter (\<lambda>r. Task_file (H ! r)) tasks) (db s)\<rparr>"
                by auto
              then show ?thesis ..
            qed
            with ok(2) show ?thesis by (auto simp add: H_def)
          qed
        qed
      qed
    qed
  qed
qed

lemma map_filter_all:
  "\<forall>x\<in>set xs. f x = Some (g x) \<Longrightarrow> List.map_filter f xs = map g xs"
  by (induction xs) (simp_all add: List.map_filter_simps)

lemma Task_file_assigned:
  assumes "r \<in> set tasks" "r < length hp"
  shows "Task_file (assignAll b tasks hp ! r) = Some (recordOf b (hp ! r))"
  using assignAll_branch[OF assms, of b] assignAll_fields[of b tasks hp r]
  by (simp add: Task_file_def recordOf_def)

lemma processBatch_result:
  assumes c: "commitBatch ev cfg br tasks s = (res, s1)"
    and lt: "\<forall>r\<in>set tasks. r < length (heap s)"
  shows "\<exists>ops. processBatch ev cfg br tasks s =
    (Inr (), s\<lparr>heap := assignAll (bbranch br) tasks (heap s),
       trace := trace s @ ops,
       db := (case res of Inl _ \<Rightarrow> db s
              | Inr _ \<Rightarrow> fold upsert_row (map (\<lambda>r. recordOf (bbranch br) (heap s ! r)) tasks) (db s)),
       promises := (case res of
           Inl e \<Rightarrow> settleAll (\<lambda>_. Rejected e) (\<lambda>r. rejectors (heap s ! r)) tasks (promises s)
         | Inr _ \<Rightarrow> settleAll (\<lambda>r. Resolved (toPublicUrl cfg (recordOf (bbranch br) (heap s ! r))))
             (\<lambda>r. resolvers (heap s ! r)) tasks (promises s)),
       taskMap := fold (\<lambda>r. AList.delete (hash (heap s ! r))) tasks (taskMap s)\<rparr>)"
proof -
  define H where "H = assignAll (bbranch br) tasks (heap s)"
  have hashH: "(\<lambda>r. AList.delete (hash (H ! r))) = (\<lambda>r. AList.delete (hash (heap s ! r)))"
    by (simp add: H_def assignAll_fields)
  have rejH: "(\<lambda>r. rejectors (H ! r)) = (\<lambda>r. rejectors (heap s ! r))"
    and resH: "(\<lambda>r. resolvers (H ! r)) = (\<lambda>r. resolvers (heap s ! r))"
    by (simp_all add: H_def assignAll_fields)
  have rows: "List.map_filter (\<lambda>r. Task_file (H ! r)) tasks = map (\<lambda>r. recordOf (bbranch br) (heap s ! r)) tasks"
    using lt by (intro map_filter_all) (simp add: H_def Task_file_assigned)
  have assigned: "\<forall>r\<in>set tasks. branch_opt (H ! r) = Some (bbranch br)"
    using lt by (simp add: H_def assignAll_branch)
  have urls: "(\<lambda>r. Resolved (toPublicUrl cfg \<lparr>hash = hash (H ! r), name = name (H ! r),
                  size' = size' (H ! r), branch = bbranch br\<rparr>))
      = (\<lambda>r. Resolved (toPublicUrl cfg (recordOf (bbranch br) (heap s ! r))))"
    by (simp add: H_def assignAll_fields recordOf_def)
  from commitBatch_result[OF c] obtain ops where r:
    "case res of
      Inl e \<Rightarrow> s1 = s\<lparr>heap := H, trace := trace s @ ops\<rparr>
    | Inr _ \<Rightarrow> s1 = fold (Task_resolve cfg) tasks
        (s\<lparr>heap := H, trace := trace s @ ops,
           db := fold upsert_row (List.map_filter (\<lambda>r. Task_file (H ! r)) tasks) (db s)\<rparr>)"
    unfolding H_def by blast
  show ?thesis
  proof (cases res)
    case (Inl e)
    with r have s1: "s1 = s\<lparr>heap := H, trace := trace s @ ops\<rparr>" by simp
    have "processBatch ev cfg br tasks s =
      (Inr (), s\<lparr>heap := H,
         trace := trace s @ (ops @ [LogWarn (''Errored processing files: '' @ error_toString e)]),
         db := db s,
         promises := settleAll (\<lambda>_. Rejected e) (\<lambda>r. rejectors (heap s ! r)) tasks (promises s),
         taskMap := fold (\<lambda>r. AList.delete (hash (heap s ! r))) tasks (taskMap s)\<rparr>)"
      using c Inl
      by (simp add: processBatch_def fold_Task_reject emit_def s1 hashH rejH)
    with Inl show ?thesis
      unfolding H_def by (intro exI[of _ "ops @ [LogWarn (''Errored processing files: '' @ error_toString e)]"]) simp
  next
    case (Inr u)
    define s0 where "s0 = s\<lparr>heap := H, trace := trace s @ ops,
           db := fold upsert_row (map (\<lambda>r. recordOf (bbranch br) (heap s ! r)) tasks) (db s)\<rparr>"
    from Inr r have "s1 = fold (Task_resolve cfg) tasks s0"
      by (simp add: rows s0_def)
    also have "\<dots> = s0\<lparr>promises := settleAll
        (\<lambda>r. Resolved (toPublicUrl cfg (recordOf (bbranch br) (heap s ! r))))
        (\<lambda>r. resolvers (heap s ! r)) tasks (promises s)\<rparr>"
      using assigned
      by (subst fold_Task_resolve[where b = "bbranch br"]) (simp_all add: s0_def urls resH)
    finally have s1: "s1 = s0\<lparr>promises := settleAll
        (\<lambda>r. Resolved (toPublicUrl cfg (recordOf (bbranch br) (heap s ! r))))
        (\<lambda>r. resolvers (heap s ! r)) tasks (promises s)\<rparr>" .
    have "processBatch ev cfg br tasks s =
      (Inr (), s\<lparr>heap := H, trace := trace s @ ops,
         db := fold upsert_row (map (\<lambda>r. recordOf (bbranch br) (heap s ! r)) tasks) (db s),
         promises := settleAll (\<lambda>r. Resolved (toPublicUrl cfg (recordOf (bbranch br) (heap s ! r))))
             (\<lambda>r. resolvers (heap s ! r)) tasks (promises s),
         taskMap := fold (\<lambda>r. AList.delete (hash (heap s ! r))) tasks (taskMap s)\<rparr>)"
      using c Inr
      by (simp add: processBatch_def s1 s0_def hashH)
    with Inr show ?thesis
      unfolding H_def by (intro exI[of _ ops]) simp
  qed
qed

subsection \<open>One iteration of the main loop\<close>

lemma getTasks_trace_ext:
  "getTasks available (s\<lparr>trace := t\<rparr>) = (tasks, s') \<Longrightarrow>
   \<exists>rest. taskQueue s = tasks @ rest \<and> s' = s\<lparr>taskQueue := rest, trace := t\<rparr>
     \<and> getTasks available s = (tasks, s\<lparr>taskQueue := rest\<rparr>)"
proof -
  assume a: "getTasks available (s\<lparr>trace := t\<rparr>) = (tasks, s')"
  obtain ts s2 where g: "getTasks available s = (ts, s2)" by (cases "getTasks available s")
  with a have eq: "ts = tasks" "s' = s2\<lparr>trace := t\<rparr>"
    by (simp_all add: getTasks_trace)
  from getTasks_splits_queue[OF g] have sp: "s2 = s\<lparr>taskQueue := drop (length ts) (taskQueue s)\<rparr>"
    "taskQueue s = ts @ taskQueue s2" by simp_all
  from sp have s2: "s2 = s\<lparr>taskQueue := taskQueue s2\<rparr>"
    by (metis append_eq_conv_conj)
  have 1: "taskQueue s = tasks @ taskQueue s2"
    using sp(2) eq(1) by simp
  have 2: "s' = s\<lparr>taskQueue := taskQueue s2, trace := t\<rparr>"
    using eq(2) by (subst (asm) s2) simp
  have 3: "getTasks available s = (tasks, s\<lparr>taskQueue := taskQueue s2\<rparr>)"
    using g eq(1) s2 by simp
  from 1 2 3 show ?thesis by blast
qed

lemma mainLoop_cases:
  assumes m: "mainLoop ev cfg s = (out, s')" and q: "taskQueue s \<noteq> []"
  obtains (idle) ops where "s' = s\<lparr>trace := trace s @ ops\<rparr>"
  | (batch) br tasks rest ops available where "tasks \<noteq> []" "taskQueue s = tasks @ rest"
      "getTasks available s = (tasks, s\<lparr>taskQueue := rest\<rparr>)"
      "processBatch ev cfg br tasks (s\<lparr>taskQueue := rest, trace := trace s @ ops\<rparr>) = (out, s')"
proof -
  from m q have m': "then_io (checkout ev cfg False False 1) (\<lambda>br.
        then_io (\<lambda>s. let (tasks, s') = getTasks (maxBranchSize cfg - bsize br) s
                     in (Inr tasks, s')) (\<lambda>tasks.
        then_io (if tasks = [] then
                   then_io (checkout ev cfg True False 1) (\<lambda>br.
                   (\<lambda>s. let (tasks, s') = getTasks (maxBranchSize cfg) s
                        in (Inr (br, tasks), s')))
                 else succeed (br, tasks)) (\<lambda>(br, tasks).
        if tasks = [] then succeed ()
        else processBatch ev cfg br tasks))) s = (out, s')"
    by (simp add: mainLoop_def)
  from m' show thesis
  proof (cases rule: then_io_cases)
    case (fail e)
    from tracedD[OF traced_checkout fail(1)] obtain ops where "s' = s\<lparr>trace := trace s @ ops\<rparr>" ..
    then show thesis by (rule idle)
  next
    case (ok br s1)
    from tracedD[OF traced_checkout ok(1)] obtain o1 where s1: "s1 = s\<lparr>trace := trace s @ o1\<rparr>" ..
    from ok(2) show thesis
    proof (cases rule: then_io_cases)
      case (fail e)
      then show thesis by (simp split: prod.splits)
    next
      case (ok tasks s2)
      from ok(1) have g: "getTasks (maxBranchSize cfg - bsize br) (s\<lparr>trace := trace s @ o1\<rparr>) = (tasks, s2)"
        unfolding s1 by (simp split: prod.splits)
      from getTasks_trace_ext[OF g] obtain rest where r: "taskQueue s = tasks @ rest"
        "s2 = s\<lparr>taskQueue := rest, trace := trace s @ o1\<rparr>"
        "getTasks (maxBranchSize cfg - bsize br) s = (tasks, s\<lparr>taskQueue := rest\<rparr>)"
        by blast
      show thesis
      proof (cases "tasks = []")
        case False
        with ok(2) have "processBatch ev cfg br tasks s2 = (out, s')"
          by (simp add: then_io_def succeed_def)
        with False r show thesis
          by (intro batch[of tasks rest "maxBranchSize cfg - bsize br" br o1]) simp_all
      next
        case True
        with r have s2: "s2 = s\<lparr>trace := trace s @ o1\<rparr>" by simp
        from ok(2) True have "then_io (then_io (checkout ev cfg True False 1) (\<lambda>br.
                   (\<lambda>s. let (tasks, s') = getTasks (maxBranchSize cfg) s
                        in (Inr (br, tasks), s'))))
            (\<lambda>(br, tasks). if tasks = [] then succeed () else processBatch ev cfg br tasks) s2 = (out, s')"
          by simp
        then show thesis
        proof (cases rule: then_io_cases)
          case (fail e)
          from fail(1) show thesis
          proof (cases rule: then_io_cases)
            case (fail e')
            from tracedD[OF traced_checkout fail(1)] obtain o2 where "s' = s2\<lparr>trace := trace s2 @ o2\<rparr>" ..
            with s2 have "s' = s\<lparr>trace := trace s @ (o1 @ o2)\<rparr>" by simp
            then show thesis by (rule idle)
          next
            case (ok b3 s3)
            then show thesis by (simp split: prod.splits)
          qed
        next
          case (ok bt s4)
          obtain br2 tasks2 where bt: "bt = (br2, tasks2)" by (cases bt)
          from ok(1) obtain s3 where c2: "checkout ev cfg True False 1 s2 = (Inr br2, s3)"
            and g2: "getTasks (maxBranchSize cfg) s3 = (tasks2, s4)"
            unfolding bt
            by (cases rule: then_io_cases) (auto split: prod.splits)
          from tracedD[OF traced_checkout c2] obtain o2 where "s3 = s2\<lparr>trace := trace s2 @ o2\<rparr>" ..
          with s2 have s3: "s3 = s\<lparr>trace := trace s @ (o1 @ o2)\<rparr>" by simp
          from getTasks_trace_ext[OF g2[unfolded s3]] obtain rest2 where r2:
            "taskQueue s = tasks2 @ rest2"
            "s4 = s\<lparr>taskQueue := rest2, trace := trace s @ (o1 @ o2)\<rparr>"
            "getTasks (maxBranchSize cfg) s = (tasks2, s\<lparr>taskQueue := rest2\<rparr>)"
            by blast
          show thesis
          proof (cases "tasks2 = []")
            case True
            with ok(2) bt have "s' = s4" by (simp add: succeed_def)
            with True r2 have "s' = s\<lparr>trace := trace s @ (o1 @ o2)\<rparr>" by simp
            then show thesis by (rule idle)
          next
            case False
            with ok(2) bt have "processBatch ev cfg br2 tasks2 s4 = (out, s')" by simp
            with False r2 show thesis
              by (intro batch[of tasks2 rest2 "maxBranchSize cfg" br2 "o1 @ o2"]) simp_all
          qed
        qed
      qed
    qed
  qed
qed

subsection \<open>The invariant holds in every reachable state\<close>

lemma delete_absent_key:
  "a \<notin> g ` set zs \<Longrightarrow> AList.delete a (map (\<lambda>r. (g r, r)) zs) = map (\<lambda>r. (g r, r)) zs"
  by (induction zs) auto

lemma delete_drained_keys:
  "distinct (map g (xs @ ys)) \<Longrightarrow>
   fold (\<lambda>r. AList.delete (g r)) xs (map (\<lambda>r. (g r, r)) (xs @ ys)) = map (\<lambda>r. (g r, r)) ys"
proof (induction xs)
  case Nil
  then show ?case by simp
next
  case (Cons x xs)
  then have "g x \<notin> g ` set (xs @ ys)" by auto
  then have "AList.delete (g x) (map (\<lambda>r. (g r, r)) (xs @ ys)) = map (\<lambda>r. (g r, r)) (xs @ ys)"
    by (rule delete_absent_key)
  with Cons show ?case by simp
qed

lemma batch_ok_sublist:
  "batch_ok s (xs @ ys) \<Longrightarrow> batch_ok s xs \<and> batch_ok s ys"
  by (auto simp add: batch_ok_def)

lemma batch_ok_trace [simp]: "batch_ok (s\<lparr>trace := t\<rparr>) tasks = batch_ok s tasks"
  by (simp add: batch_ok_def)

lemma batch_ok_taskQueue [simp]: "batch_ok (s\<lparr>taskQueue := q\<rparr>) tasks = batch_ok s tasks"
  by (simp add: batch_ok_def)

lemma queue_inv_processBatch:
  assumes i: "queue_inv s0" and q: "taskQueue s0 = tasks @ rest"
    and p: "processBatch ev cfg br tasks (s0\<lparr>taskQueue := rest, trace := t\<rparr>) = (out, s')"
  shows "queue_inv s'"
proof -
  define s where "s = s0\<lparr>taskQueue := rest, trace := t\<rparr>"
  define H where "H = assignAll (bbranch br) tasks (heap s0)"
  from i q have b: "batch_ok s0 (tasks @ rest)"
    and tm: "taskMap s0 = map (\<lambda>r. (hash (heap s0 ! r), r)) (tasks @ rest)"
    and dh: "distinct (map (\<lambda>r. hash (heap s0 ! r)) (tasks @ rest))"
    by (simp_all add: queue_inv_def)
  from b have lt: "\<forall>r\<in>set tasks. r < length (heap s)"
    by (simp add: batch_ok_def s_def)
  obtain res s1 where c: "commitBatch ev cfg br tasks s = (res, s1)"
    by (cases "commitBatch ev cfg br tasks s")
  define v where "v = (case res of
      Inl e \<Rightarrow> (\<lambda>_. Rejected e)
    | Inr _ \<Rightarrow> (\<lambda>r. Resolved (toPublicUrl cfg (recordOf (bbranch br) (heap s0 ! r)))))"
  define W where "W = (\<lambda>r. resolvers (heap s0 ! r))"
  have rej: "settleAll u (\<lambda>r. rejectors (heap s0 ! r)) tasks ps = settleAll u W tasks ps" for u ps
    using b unfolding settleAll_def W_def
    by (intro fold_cong) (auto simp add: batch_ok_def)
  from processBatch_result[OF c lt] p obtain ops where pr:
    "s' = s\<lparr>heap := assignAll (bbranch br) tasks (heap s),
       trace := trace s @ ops,
       db := (case res of Inl _ \<Rightarrow> db s
              | Inr _ \<Rightarrow> fold upsert_row (map (\<lambda>r. recordOf (bbranch br) (heap s ! r)) tasks) (db s)),
       promises := (case res of
           Inl e \<Rightarrow> settleAll (\<lambda>_. Rejected e) (\<lambda>r. rejectors (heap s ! r)) tasks (promises s)
         | Inr _ \<Rightarrow> settleAll (\<lambda>r. Resolved (toPublicUrl cfg (recordOf (bbranch br) (heap s ! r))))
             (\<lambda>r. resolvers (heap s ! r)) tasks (promises s)),
       taskMap := fold (\<lambda>r. AList.delete (hash (heap s ! r))) tasks (taskMap s)\<rparr>"
    unfolding s_def by auto
  have P: "(case res of
           Inl e \<Rightarrow> settleAll (\<lambda>_. Rejected e) (\<lambda>r. rejectors (heap s ! r)) tasks (promises s)
         | Inr _ \<Rightarrow> settleAll (\<lambda>r. Resolved (toPublicUrl cfg (recordOf (bbranch br) (heap s ! r))))
             (\<lambda>r. resolvers (heap s ! r)) tasks (promises s))
      = settleAll v W tasks (promises s0)"
    by (cases res) (simp_all add: v_def s_def rej, simp add: W_def)
  define D where "D = (case res of Inl _ \<Rightarrow> db s
              | Inr _ \<Rightarrow> fold upsert_row (map (\<lambda>r. recordOf (bbranch br) (heap s ! r)) tasks) (db s))"
  have s': "s' = s0\<lparr>taskQueue := rest, trace := t @ ops, heap := H, db := D,
        promises := settleAll v W tasks (promises s0),
        taskMap := fold (\<lambda>r. AList.delete (hash (heap s0 ! r))) tasks (taskMap s0)\<rparr>"
    unfolding pr P D_def[symmetric] by (simp add: s_def H_def)
  have vp: "\<forall>r\<in>set tasks. v r \<noteq> Pending"
    by (cases res) (simp_all add: v_def)
  have fields: "hash (H ! x) = hash (heap s0 ! x)" "resolvers (H ! x) = resolvers (heap s0 ! x)"
    "rejectors (H ! x) = rejectors (heap s0 ! x)" for x
    by (simp_all add: H_def assignAll_fields)
  have M: "taskMap s' = map (\<lambda>r. (hash (heap s0 ! r), r)) rest"
    unfolding s' tm using delete_drained_keys[OF dh] by simp
  have keep: "settleAll v W tasks (promises s0) ! w = promises s0 ! w"
    if "x \<in> set rest" "w \<in> set (W x)" for x w
  proof (rule settleAll_other[OF vp])
    show "\<forall>r\<in>set tasks. w \<notin> set (W r)"
    proof
      fix r assume r: "r \<in> set tasks"
      with b that(1) have "r \<noteq> x" by (auto simp add: batch_ok_def)
      with b r that(1) have "set (W r) \<inter> set (W x) = {}"
        by (simp add: batch_ok_def W_def)
      with that(2) show "w \<notin> set (W r)" by auto
    qed
  qed
  from batch_ok_sublist[OF b] have br: "batch_ok s0 rest" by simp
  have "batch_ok s' rest"
    unfolding batch_ok_def
  proof (intro conjI ballI impI)
    show "distinct rest" using br by (simp add: batch_ok_def)
  next
    fix x assume "x \<in> set rest"
    with br show "x < length (heap s')" by (simp add: batch_ok_def s' H_def)
  next
    fix x assume "x \<in> set rest"
    with br show "rejectors (heap s' ! x) = resolvers (heap s' ! x)"
      by (simp add: batch_ok_def s' fields)
  next
    fix x assume "x \<in> set rest"
    with br show "distinct (resolvers (heap s' ! x))"
      by (simp add: batch_ok_def s' fields)
  next
    fix x w assume x: "x \<in> set rest" and w: "w \<in> set (resolvers (heap s' ! x))"
    with br show "w < length (promises s')"
      by (simp add: batch_ok_def s' fields)
  next
    fix x w assume x: "x \<in> set rest" and w: "w \<in> set (resolvers (heap s' ! x))"
    then have w': "w \<in> set (W x)" by (simp add: s' fields W_def)
    with br x have "promises s0 ! w = Pending" by (simp add: batch_ok_def W_def)
    with keep[OF x w'] show "promises s' ! w = Pending"
      by (simp add: s')
  next
    fix x y assume "x \<in> set rest" "y \<in> set rest" "x \<noteq> y"
    with br show "set (resolvers (heap s' ! x)) \<inter> set (resolvers (heap s' ! y)) = {}"
      by (simp add: batch_ok_def s' fields)
  qed
  then have bk: "batch_ok s' rest" .
  have tq: "taskQueue s' = rest" by (simp add: s')
  have h1: "map (\<lambda>r. hash (heap s' ! r)) rest = map (\<lambda>r. hash (heap s0 ! r)) rest"
    and h2: "map (\<lambda>r. (hash (heap s' ! r), r)) rest = map (\<lambda>r. (hash (heap s0 ! r), r)) rest"
    by (simp_all add: s' fields)
  from dh have dr: "distinct (map (\<lambda>r. hash (heap s0 ! r)) rest)" by simp
  show ?thesis
    unfolding queue_inv_def tq h1 h2 using bk M dr by blast
qed

lemma queue_inv_mainLoop:
  assumes "queue_inv s"
  shows "queue_inv (snd (mainLoop ev cfg s))"
proof (cases "taskQueue s = []")
  case True
  with assms show ?thesis by (simp add: mainLoop_def emit_def)
next
  case False
  obtain out s' where m: "mainLoop ev cfg s = (out, s')" by (cases "mainLoop ev cfg s")
  from m False have "queue_inv s'"
  proof (cases rule: mainLoop_cases)
    case (idle ops)
    with assms show ?thesis by simp
  next
    case (batch br tasks rest ops available)
    from assms batch(2,4) show ?thesis by (rule queue_inv_processBatch)
  qed
  with m show ?thesis by simp
qed

lemma stable_traced:
  assumes "\<And>s t. P (s\<lparr>trace := t\<rparr>) = P s" and "traced m"
  shows "stable P m"
  unfolding stable_def
proof (intro allI impI)
  fix s assume "P s"
  from assms(2) obtain ops where "snd (m s) = s\<lparr>trace := trace s @ ops\<rparr>"
    unfolding traced_def by blast
  with \<open>P s\<close> assms(1) show "P (snd (m s))" by simp
qed

lemma stable_then_io:
  assumes "stable P m" and "\<And>a. stable P (f a)"
  shows "stable P (then_io m f)"
  unfolding stable_def
proof (intro allI impI)
  fix s assume "P s"
  obtain r s1 where ms: "m s = (r, s1)" by (cases "m s")
  with assms(1) \<open>P s\<close> have p1: "P s1" by (auto simp add: stable_def)
  show "P (snd (then_io m f s))"
  proof (cases r)
    case (Inl e)
    with ms p1 show ?thesis by (simp add: then_io_def)
  next
    case (Inr a)
    with ms p1 assms(2)[of a] show ?thesis by (simp add: then_io_def stable_def)
  qed
qed

lemma stable_upload: "stable queue_inv (upload ev cfg url name_opt)"
  unfolding upload_def Let_def
proof (intro stable_then_io)
  show "stable queue_inv (getAssetBuffer ev url)"
    by (rule stable_traced) simp_all
next
  fix buffer
  show "stable queue_inv (database_get ev (\<lambda>f. hash f = sha1_hex ev buffer) None)"
    by (rule stable_traced) simp_all
next
  fix buffer rows
  show "stable queue_inv (case rows of
      [] \<Rightarrow> then_io (case name_opt of
                   None \<Rightarrow> getFileName ev buffer
                 | Some n \<Rightarrow> if n = [] then getFileName ev buffer else succeed n) (\<lambda>name'.
            then_io (perform ev (FsWriteFile (join (tempDir cfg) (sha1_hex ev buffer)) buffer)) (\<lambda>_ s.
              case createTask \<lparr>hash = sha1_hex ev buffer, name = name', size' = int (length buffer)\<rparr> s of
                (p, s') \<Rightarrow> (Inr (Waiting p), s')))
    | file # x \<Rightarrow> succeed (Url (toPublicUrl cfg file)))"
  proof (cases rows)
    case Nil
    have n: "stable queue_inv (case name_opt of
                   None \<Rightarrow> getFileName ev buffer
                 | Some n \<Rightarrow> if n = [] then getFileName ev buffer else succeed n)"
      by (rule stable_traced) (simp_all split: option.splits)
    have w: "stable queue_inv (perform ev op)" for op
      by (rule stable_traced) simp_all
    have c: "stable queue_inv (\<lambda>s. case createTask fb s of (p, s') \<Rightarrow> (Inr (Waiting p), s'))" for fb
      unfolding stable_def
    proof (intro allI impI)
      fix s assume "queue_inv s"
      then have "queue_inv (snd (createTask fb s))" by (rule queue_inv_createTask)
      then show "queue_inv (snd (case createTask fb s of (p, s') \<Rightarrow> (Inr (Waiting p), s')))"
        by (auto split: prod.splits)
    qed
    from Nil show ?thesis
      by (simp only: list.case) (intro stable_then_io n w c)
  next
    case (Cons f0 x)
    then show ?thesis
      by (simp only: list.case) (rule stable_traced, simp_all)
  qed
qed

lemma reachable_queue_inv: "reachable cfg s \<Longrightarrow> queue_inv s"
proof (induction rule: reachable.induct)
  case (fresh rows)
  show ?case by (simp add: queue_inv_def batch_ok_def init_def)
next
  case (connect s b)
  then show ?case by simp
next
  case (create s fb)
  then show ?case by (simp add: queue_inv_createTask)
next
  case (upload s ev url name_opt)
  with stable_upload[of ev cfg url name_opt] show ?case by (simp add: stable_def)
next
  case (loop s ev)
  then show ?case by (simp add: queue_inv_mainLoop)
qed

subsection \<open>Settlement of a drained batch\<close>

lemma queued_example_eq:
  "queued_example = init\<lparr>
     heap := [\<lparr>hash = ''a'', name = ''a.png'', size' = 10, branch_opt = None,
               resolvers = [0, 2], rejectors = [0, 2]\<rparr>,
              \<lparr>hash = ''b'', name = ''b.png'', size' = 10, branch_opt = None,
               resolvers = [1], rejectors = [1]\<rparr>],
     taskQueue := [0, 1],
     taskMap := [(''a'', 0), (''b'', 1)],
     promises := [Pending, Pending, Pending]\<rparr>"
  by (simp add: queued_example_def createTask_def init_def newTask_def Let_def)

lemma reachable_queued_example: "reachable cfg queued_example"
proof -
  have "reachable cfg (init\<lparr>db := []\<rparr>)" by (rule reachable.fresh)
  then have "reachable cfg init" by (simp add: init_def)
  then show ?thesis
    unfolding queued_example_def by (intro reachable.create)
qed

lemma queued_example_fields:
  "db queued_example = []" "trace queued_example = []" "taskQueue queued_example = [0, 1]"
  "taskMap queued_example = [(''a'', 0), (''b'', 1)]"
  "promises queued_example = [Pending, Pending, Pending]"
  "heap queued_example = [\<lparr>hash = ''a'', name = ''a.png'', size' = 10, branch_opt = None,
               resolvers = [0, 2], rejectors = [0, 2]\<rparr>,
              \<lparr>hash = ''b'', name = ''b.png'', size' = 10, branch_opt = None,
               resolvers = [1], rejectors = [1]\<rparr>]"
  by (simp_all add: queued_example_eq init_def)













subsection \<open>After a batch has settled\<close>


lemma createTask_promise: "fst (createTask fb x) = length (promises x)"
  by (simp add: createTask_def Let_def split: option.splits prod.splits)

lemma createTask_fresh:
  assumes "map_of (taskMap s) (hash fb) = None"
  shows "createTask fb s =
    (length (promises s),
     s\<lparr>promises := promises s @ [Pending],
       heap := heap s @ [(newTask fb)\<lparr>resolvers := [length (promises s)],
                                      rejectors := [length (promises s)]\<rparr>],
       taskQueue := taskQueue s @ [length (heap s)],
       taskMap := taskMap s @ [(hash fb, length (heap s))]\<rparr>)"
proof -
  from assms have "hash fb \<notin> fst ` set (taskMap s)"
    by (simp add: map_of_eq_None_iff)
  then have "AList.update (hash fb) (length (heap s)) (taskMap s) = taskMap s @ [(hash fb, length (heap s))]"
    by (rule update_fresh_key)
  with createTask_new[OF assms] show ?thesis by simp
qed



subsection \<open>One Task per hash\<close>

text \<open>
  Claim C4: in every state reached by calls of \<open>createTask\<close> and \<open>upload\<close> and iterations
  of \<open>mainLoop\<close>, the index holds exactly the queued tasks, each under its own hash, and no
  two of them have the same hash.  A call of \<open>createTask\<close> for a hash that is indexed
  appends the resolver and rejecter of its promise to that task and changes nothing else:
  the heap keeps its size, the queue and the index stay as they are.  Only a call for a hash
  that is not indexed creates a Task, appends it to the queue and indexes it.
\<close>

theorem one_task_per_hash:
  assumes "reachable cfg s"
  shows "distinct (map (\<lambda>r. hash (heap s ! r)) (taskQueue s))
    \<and> taskMap s = map (\<lambda>r. (hash (heap s ! r), r)) (taskQueue s)
    \<and> (\<forall>r. map_of (taskMap s) (hash fb) = Some r \<longrightarrow>
          r \<in> set (taskQueue s) \<and> r < length (heap s) \<and> hash (heap s ! r) = hash fb
        \<and> createTask fb s =
            (length (promises s),
             s\<lparr>promises := promises s @ [Pending],
               heap := (heap s)[r := (heap s ! r)
                 \<lparr>resolvers := resolvers (heap s ! r) @ [length (promises s)],
                  rejectors := rejectors (heap s ! r) @ [length (promises s)]\<rparr>]\<rparr>)
        \<and> length (heap (snd (createTask fb s))) = length (heap s)
        \<and> taskQueue (snd (createTask fb s)) = taskQueue s
        \<and> taskMap (snd (createTask fb s)) = taskMap s)
    \<and> (map_of (taskMap s) (hash fb) = None \<longrightarrow>
          hash fb \<notin> (\<lambda>r. hash (heap s ! r)) ` set (taskQueue s)
        \<and> createTask fb s =
            (length (promises s),
             s\<lparr>promises := promises s @ [Pending],
               heap := heap s @ [(newTask fb)\<lparr>resolvers := [length (promises s)],
                                              rejectors := [length (promises s)]\<rparr>],
               taskQueue := taskQueue s @ [length (heap s)],
               taskMap := taskMap s @ [(hash fb, length (heap s))]\<rparr>))"
proof -
  from assms have i: "queue_inv s" by (rule reachable_queue_inv)
  then have tm: "taskMap s = map (\<lambda>r. (hash (heap s ! r), r)) (taskQueue s)"
    and dh: "distinct (map (\<lambda>r. hash (heap s ! r)) (taskQueue s))"
    and b: "batch_ok s (taskQueue s)"
    by (simp_all add: queue_inv_def)
  have existing: "r \<in> set (taskQueue s) \<and> r < length (heap s) \<and> hash (heap s ! r) = hash fb
        \<and> createTask fb s =
            (length (promises s),
             s\<lparr>promises := promises s @ [Pending],
               heap := (heap s)[r := (heap s ! r)
                 \<lparr>resolvers := resolvers (heap s ! r) @ [length (promises s)],
                  rejectors := rejectors (heap s ! r) @ [length (promises s)]\<rparr>]\<rparr>)
        \<and> length (heap (snd (createTask fb s))) = length (heap s)
        \<and> taskQueue (snd (createTask fb s)) = taskQueue s
        \<and> taskMap (snd (createTask fb s)) = taskMap s"
    if m: "map_of (taskMap s) (hash fb) = Some r" for r
  proof -
    from m dh have rq: "r \<in> set (taskQueue s)" and h: "hash (heap s ! r) = hash fb"
      unfolding tm by (simp_all add: map_of_index)
    from rq b have lt: "r < length (heap s)" by (simp add: batch_ok_def)
    note c = createTask_existing[OF m]
    from rq lt h c show ?thesis by simp
  qed
  have fresh: "hash fb \<notin> (\<lambda>r. hash (heap s ! r)) ` set (taskQueue s)
        \<and> createTask fb s =
            (length (promises s),
             s\<lparr>promises := promises s @ [Pending],
               heap := heap s @ [(newTask fb)\<lparr>resolvers := [length (promises s)],
                                              rejectors := [length (promises s)]\<rparr>],
               taskQueue := taskQueue s @ [length (heap s)],
               taskMap := taskMap s @ [(hash fb, length (heap s))]\<rparr>)"
    if m: "map_of (taskMap s) (hash fb) = None"
  proof -
    from m have "hash fb \<notin> (\<lambda>r. hash (heap s ! r)) ` set (taskQueue s)"
      unfolding tm by (simp add: map_of_index_None)
    with createTask_fresh[OF m] show ?thesis by simp
  qed
  from dh tm existing fresh show ?thesis by blast
qed

theorem one_task_per_hash_witness:
  "reachable cfg_example queued_example
   \<and> map (\<lambda>r. hash (heap queued_example ! r)) (taskQueue queued_example) = [''a'', ''b'']
   \<and> map_of (taskMap queued_example) ''b'' = Some 1
   \<and> createTask \<lparr>hash = ''b'', name = ''again.png'', size' = 10\<rparr> queued_example =
       (3, queued_example\<lparr>promises := [Pending, Pending, Pending, Pending],
             heap := [\<lparr>hash = ''a'', name = ''a.png'', size' = 10, branch_opt = None,
                       resolvers = [0, 2], rejectors = [0, 2]\<rparr>,
                      \<lparr>hash = ''b'', name = ''b.png'', size' = 10, branch_opt = None,
                       resolvers = [1, 3], rejectors = [1, 3]\<rparr>]\<rparr>)
   \<and> map_of (taskMap queued_example) ''c'' = None
   \<and> taskQueue (snd (createTask \<lparr>hash = ''c'', name = ''c.png'', size' = 30\<rparr> queued_example))
       = [0, 1, 2]"
proof -
  note r = reachable_queued_example[of cfg_example]
  have h: "map (\<lambda>r. hash (heap queued_example ! r)) (taskQueue queued_example) = [''a'', ''b'']"
    by (simp add: queued_example_fields)
  have b: "map_of (taskMap queued_example) (hash \<lparr>hash = ''b'', name = ''again.png'', size' = 10\<rparr>) = Some 1"
    and c: "map_of (taskMap queued_example) (hash \<lparr>hash = ''c'', name = ''c.png'', size' = 30\<rparr>) = None"
    by (simp_all add: queued_example_fields)
  from one_task_per_hash[OF r, of "\<lparr>hash = ''b'', name = ''again.png'', size' = 10\<rparr>"] b
  have "createTask \<lparr>hash = ''b'', name = ''again.png'', size' = 10\<rparr> queued_example =
            (length (promises queued_example),
             queued_example\<lparr>promises := promises queued_example @ [Pending],
               heap := (heap queued_example)[1 := (heap queued_example ! 1)
                 \<lparr>resolvers := resolvers (heap queued_example ! 1) @ [length (promises queued_example)],
                  rejectors := rejectors (heap queued_example ! 1) @ [length (promises queued_example)]\<rparr>]\<rparr>)"
    by blast
  then have 1: "createTask \<lparr>hash = ''b'', name = ''again.png'', size' = 10\<rparr> queued_example =
       (3, queued_example\<lparr>promises := [Pending, Pending, Pending, Pending],
             heap := [\<lparr>hash = ''a'', name = ''a.png'', size' = 10, branch_opt = None,
                       resolvers = [0, 2], rejectors = [0, 2]\<rparr>,
                      \<lparr>hash = ''b'', name = ''b.png'', size' = 10, branch_opt = None,
                       resolvers = [1, 3], rejectors = [1, 3]\<rparr>]\<rparr>)"
    by (simp add: queued_example_fields)
  from one_task_per_hash[OF r, of "\<lparr>hash = ''c'', name = ''c.png'', size' = 30\<rparr>"] c
  have "createTask \<lparr>hash = ''c'', name = ''c.png'', size' = 30\<rparr> queued_example =
            (length (promises queued_example),
             queued_example\<lparr>promises := promises queued_example @ [Pending],
               heap := heap queued_example @ [(newTask \<lparr>hash = ''c'', name = ''c.png'', size' = 30\<rparr>)
                  \<lparr>resolvers := [length (promises queued_example)],
                   rejectors := [length (promises queued_example)]\<rparr>],
               taskQueue := taskQueue queued_example @ [length (heap queued_example)],
               taskMap := taskMap queued_example @
                 [(hash \<lparr>hash = ''c'', name = ''c.png'', size' = 30\<rparr>, length (heap queued_example))]\<rparr>)"
    by blast
  then have 2: "taskQueue (snd (createTask \<lparr>hash = ''c'', name = ''c.png'', size' = 30\<rparr> queued_example))
       = [0, 1, 2]"
    by (simp add: queued_example_fields)
  from b c have b': "map_of (taskMap queued_example) ''b'' = Some 1"
    and c': "map_of (taskMap queued_example) ''c'' = None"
    by simp_all
  from r h b' 1 c' 2 show ?thesis by blast
qed

subsection \<open>The loop of \<open>start\<close>\<close>

lemma isActive_fold_Task_resolve [simp]:
  "isActive (fold (Task_resolve cfg) ts x) = isActive x"
  by (induction ts arbitrary: x) (simp_all add: Task_resolve_def Let_def split: option.splits)

lemma isActive_commitBatch:
  "isActive (snd (commitBatch ev cfg br tasks s)) = isActive s"
proof -
  obtain res s1 where c: "commitBatch ev cfg br tasks s = (res, s1)"
    by (cases "commitBatch ev cfg br tasks s")
  from commitBatch_result[OF c] have "isActive s1 = isActive s"
    by (cases res) auto
  with c show ?thesis by simp
qed

lemma isActive_processBatch:
  "isActive (snd (processBatch ev cfg br tasks s)) = isActive s"
proof -
  obtain res s1 where c: "commitBatch ev cfg br tasks s = (res, s1)"
    by (cases "commitBatch ev cfg br tasks s")
  with isActive_commitBatch[of ev cfg br tasks s] have "isActive s1 = isActive s" by simp
  with c show ?thesis
    by (cases res) (simp_all add: processBatch_def fold_Task_reject emit_def)
qed

lemma isActive_mainLoop:
  "isActive (snd (mainLoop ev cfg s)) = isActive s"
proof (cases "taskQueue s = []")
  case True
  then show ?thesis by (simp add: mainLoop_def emit_def)
next
  case False
  obtain out s' where m: "mainLoop ev cfg s = (out, s')" by (cases "mainLoop ev cfg s")
  from m False have "isActive s' = isActive s"
  proof (cases rule: mainLoop_cases)
    case (idle ops)
    then show ?thesis by simp
  next
    case (batch br tasks rest ops available)
    with isActive_processBatch[of ev cfg br tasks "s\<lparr>taskQueue := rest, trace := trace s @ ops\<rparr>"]
    show ?thesis by simp
  qed
  with m show ?thesis by simp
qed

lemma isActive_iteration:
  "isActive (iteration cfg ev s) = (isActive s \<and> \<not> disconnect ev)"
proof -
  obtain out s1 where m: "mainLoop ev cfg s = (out, s1)" by (cases "mainLoop ev cfg s")
  with isActive_mainLoop[of ev cfg s] have "isActive s1 = isActive s" by simp
  with m show ?thesis
    by (cases out) (simp_all add: iteration_def emit_def Let_def)
qed

lemma start_exit_inactive:
  "start cfg evs s = Some s' \<Longrightarrow> \<not> isActive s'"
  by (induction evs arbitrary: s) (auto split: if_splits)

lemma start_keeps_running:
  "isActive s \<Longrightarrow> \<forall>ev\<in>set evs. \<not> disconnect ev \<Longrightarrow> start cfg evs s = None"
  by (induction evs arbitrary: s) (simp_all add: isActive_iteration)

text \<open>
  Claim C9: the loop of \<open>start\<close> returns only in a state where \<open>isActive\<close> is false.  While
  no \<open>disconnect\<close> fires it is still running after any number of iterations, whatever
  errors \<open>mainLoop\<close> has thrown: an iteration in which \<open>mainLoop\<close> throws \<open>e\<close> logs
  \<open>Loop failed: e\<close>, leaves \<open>isActive\<close> as it is and is followed by the next iteration.
  When a \<open>disconnect\<close> has fired during an iteration, the loop returns after it.  On an empty
  queue an iteration does nothing but sleep for \<open>flushInterval\<close>.
\<close>

theorem start_never_exits_on_error:
  "(start cfg evs s = Some s' \<longrightarrow> \<not> isActive s')
   \<and> (isActive s \<and> (\<forall>ev\<in>set evs. \<not> disconnect ev) \<longrightarrow> start cfg evs s = None)
   \<and> (isActive s \<and> \<not> disconnect ev \<and> mainLoop ev cfg s = (Inl e, s1) \<longrightarrow>
        iteration cfg ev s = emit (LogWarn (''Loop failed: '' @ error_toString e)) s1
      \<and> isActive (iteration cfg ev s)
      \<and> start cfg (ev # evs) s = start cfg evs (emit (LogWarn (''Loop failed: '' @ error_toString e)) s1))
   \<and> (isActive s \<and> disconnect ev \<longrightarrow> start cfg (ev # evs) s = Some (iteration cfg ev s))
   \<and> (taskQueue s = [] \<longrightarrow> mainLoop ev cfg s = (Inr (), emit (Sleep (flushInterval cfg)) s))"
proof (intro conjI impI)
  assume "start cfg evs s = Some s'"
  then show "\<not> isActive s'" by (rule start_exit_inactive)
next
  assume "isActive s \<and> (\<forall>ev\<in>set evs. \<not> disconnect ev)"
  then show "start cfg evs s = None" by (simp add: start_keeps_running)
next
  assume a: "isActive s \<and> \<not> disconnect ev \<and> mainLoop ev cfg s = (Inl e, s1)"
  then show it: "iteration cfg ev s = emit (LogWarn (''Loop failed: '' @ error_toString e)) s1"
    by (simp add: iteration_def Let_def)
  from a show "isActive (iteration cfg ev s)" by (simp add: isActive_iteration)
  from a it show "start cfg (ev # evs) s
      = start cfg evs (emit (LogWarn (''Loop failed: '' @ error_toString e)) s1)"
    by simp
next
  assume a: "isActive s \<and> disconnect ev"
  then have "\<not> isActive (iteration cfg ev s)" by (simp add: isActive_iteration)
  with a show "start cfg (ev # evs) s = Some (iteration cfg ev s)"
    by (cases evs) simp_all
next
  assume "taskQueue s = []"
  then show "mainLoop ev cfg s = (Inr (), emit (Sleep (flushInterval cfg)) s)"
    by (simp add: mainLoop_def)
qed

lemma mainLoop_db_fails:
  assumes "taskQueue s \<noteq> []" "fails ev DbGet = Some e"
  shows "mainLoop ev cfg s = (Inl e, s)"
proof -
  from assms(2) have "checkout ev cfg False False 1 s = (Inl e, s)"
    by (simp add: checkout_def getBranch_def database_get_def resolveModifier_def Let_def then_io_def perform_def)
  with assms(1) show ?thesis
    by (simp add: mainLoop_def then_io_def)
qed

theorem start_never_exits_on_error_witness:
  "mainLoop (db_fail_env False) cfg_example (queued_example\<lparr>isActive := True\<rparr>)
     = (Inl (Error ''DbError'' ''down''), queued_example\<lparr>isActive := True\<rparr>)
   \<and> start cfg_example [db_fail_env False, db_fail_env False] (queued_example\<lparr>isActive := True\<rparr>) = None
   \<and> start cfg_example [db_fail_env False, db_fail_env True] (queued_example\<lparr>isActive := True\<rparr>)
     = Some (queued_example\<lparr>isActive := False,
          trace := [LogWarn ''Loop failed: DbError: down'', LogWarn ''Loop failed: DbError: down'']\<rparr>)
   \<and> mainLoop ok_env cfg_example init = (Inr (), init\<lparr>trace := [Sleep 3000]\<rparr>)"
proof -
  define s0 where "s0 = queued_example\<lparr>isActive := True\<rparr>"
  define E where "E = Error ''DbError'' ''down''"
  define s1 where "s1 = emit (LogWarn (''Loop failed: '' @ error_toString E)) s0"
  have f: "fails (db_fail_env b) DbGet = Some E" "disconnect (db_fail_env b) = b" for b
    by (simp_all add: db_fail_env_def ok_env_def E_def)
  have q: "taskQueue s0 \<noteq> []" "taskQueue s1 \<noteq> []" "isActive s0" "isActive s1"
    by (simp_all add: s0_def s1_def emit_def queued_example_fields)
  have m0: "mainLoop (db_fail_env b) cfg_example s0 = (Inl E, s0)" for b
    using q(1) f(1) by (rule mainLoop_db_fails)
  have m1: "mainLoop (db_fail_env b) cfg_example s1 = (Inl E, s1)" for b
    using q(2) f(1) by (rule mainLoop_db_fails)
  have s1': "s1 = queued_example\<lparr>isActive := True, trace := [LogWarn ''Loop failed: DbError: down'']\<rparr>"
    by (simp add: s1_def s0_def emit_def E_def queued_example_fields)
  note t = start_never_exits_on_error[of cfg_example _ s0 _ "db_fail_env False" E s0]
  from t[of "[db_fail_env False, db_fail_env False]"] q(3) f(2)
  have 1: "start cfg_example [db_fail_env False, db_fail_env False] s0 = None"
    by simp
  from t[of "[db_fail_env True]"] q(3) f(2) m0[of False]
  have "start cfg_example (db_fail_env False # [db_fail_env True]) s0
      = start cfg_example [db_fail_env True] s1"
    unfolding s1_def by blast
  also have "\<dots> = Some (iteration cfg_example (db_fail_env True) s1)"
    using q(4) by (simp add: isActive_iteration f(2))
  also have "iteration cfg_example (db_fail_env True) s1
      = s1\<lparr>isActive := False, trace := trace s1 @ [LogWarn (''Loop failed: '' @ error_toString E)]\<rparr>"
    by (simp add: iteration_def m1 f(2) emit_def)
  finally have 2: "start cfg_example [db_fail_env False, db_fail_env True] s0
     = Some (queued_example\<lparr>isActive := False,
          trace := [LogWarn ''Loop failed: DbError: down'', LogWarn ''Loop failed: DbError: down'']\<rparr>)"
    by (simp add: s1' E_def)
  from t[of "[]"] have 3: "mainLoop ok_env cfg_example init = (Inr (), init\<lparr>trace := [Sleep 3000]\<rparr>)"
    by (simp add: mainLoop_def init_def emit_def cfg_example_def)
  from m0[of False] 1 2 3 show ?thesis
    unfolding s0_def E_def by blast
qed

end
